theory Spec2Isabelle
  imports Complex_Main "HOL-Library.Multiset"
begin

section \<open>Floating-point cells\<close>

text \<open>
  Every numeric cell of the data frames and every number handed to \<open>safe_float\<close> is a
  Python/NumPy float.  A float is either finite, one of the two infinities, or
  not-a-number.  A finite float is modelled by the real number it denotes.  Where a
  result can leave the binary64 range (the running sums of the rolling statistics, the
  sums of squares of the score) the overflow to an infinity is modelled, and so is the
  underflow of a square to zero where the code tests the result against zero; the
  rounding of a result that stays in range is not.  (The one place where rounding could
  change an integer result, the split index \<open>int(len(df_raw) * 0.8)\<close>, is modelled bit
  for bit further down.)
\<close>

datatype pyfloat = Fin real | PInf | NInf | NaN

fun isnan :: "pyfloat \<Rightarrow> bool" where
  "isnan NaN = True"
| "isnan _ = False"

fun isfinite :: "pyfloat \<Rightarrow> bool" where
  "isfinite (Fin _) = True"
| "isfinite _ = False"

text \<open>IEEE comparison \<open>a < b\<close>: false as soon as one side is not-a-number.\<close>

fun flt :: "pyfloat \<Rightarrow> pyfloat \<Rightarrow> bool" where
  "flt NaN _ = False"
| "flt _ NaN = False"
| "flt (Fin a) (Fin b) = (a < b)"
| "flt _ NInf = False"
| "flt NInf _ = True"
| "flt PInf _ = False"
| "flt _ PInf = True"

definition fle :: "pyfloat \<Rightarrow> pyfloat \<Rightarrow> bool" where
  "fle a b = (\<not> isnan a \<and> \<not> isnan b \<and> \<not> flt b a)"

text \<open>Python's \<open>max(a, b)\<close> keeps its first argument unless the second compares greater.\<close>

definition py_max :: "pyfloat \<Rightarrow> pyfloat \<Rightarrow> pyfloat" where
  "py_max a b = (if flt a b then b else a)"

text \<open>
  \<open>round(x, ndigits)\<close> on a float: the nearest multiple of \<open>10^-ndigits\<close>, a tie going
  to the even multiple; infinities and not-a-number are returned unchanged.
\<close>

definition round_half_even :: "real \<Rightarrow> int" where
  "round_half_even x =
     (let f = \<lfloor>x\<rfloor>; d = x - of_int f
      in if d < 1 / 2 then f
         else if 1 / 2 < d then f + 1
         else if even f then f else f + 1)"

definition py_round :: "pyfloat \<Rightarrow> nat \<Rightarrow> pyfloat" where
  "py_round v ndigits =
     (case v of
        Fin x \<Rightarrow> Fin (of_int (round_half_even (x * 10 ^ ndigits)) / 10 ^ ndigits)
      | _ \<Rightarrow> v)"

text \<open>
  Addition and division by a count where the operands are too small for the result to
  leave the binary64 range (the median of two predictions), with the IEEE rules for the
  special values.
\<close>

fun fadd :: "pyfloat \<Rightarrow> pyfloat \<Rightarrow> pyfloat" where
  "fadd NaN _ = NaN"
| "fadd _ NaN = NaN"
| "fadd (Fin a) (Fin b) = Fin (a + b)"
| "fadd PInf NInf = NaN"
| "fadd NInf PInf = NaN"
| "fadd PInf _ = PInf"
| "fadd _ PInf = PInf"
| "fadd NInf _ = NInf"
| "fadd _ NInf = NInf"

fun fneg :: "pyfloat \<Rightarrow> pyfloat" where
  "fneg (Fin a) = Fin (- a)"
| "fneg PInf = NInf"
| "fneg NInf = PInf"
| "fneg NaN = NaN"

text \<open>Division by a positive count.\<close>

fun fdiv_count :: "pyfloat \<Rightarrow> nat \<Rightarrow> pyfloat" where
  "fdiv_count (Fin a) n = Fin (a / real n)"
| "fdiv_count v n = v"

text \<open>
  Binary64 arithmetic with overflow, for the running sums of the rolling statistics and
  of the score: a result whose magnitude reaches \<open>2^1024 - 2^970\<close>, the least magnitude
  that rounds to an infinity, is that infinity; below it the exact result stands for the
  rounded one.
\<close>

definition overflow_threshold :: real where
  "overflow_threshold = 2 ^ 1024 - 2 ^ 970"

definition fin :: "real \<Rightarrow> pyfloat" where
  "fin x =
     (if overflow_threshold \<le> x then PInf
      else if x \<le> - overflow_threshold then NInf
      else Fin x)"

fun add64 :: "pyfloat \<Rightarrow> pyfloat \<Rightarrow> pyfloat" where
  "add64 NaN _ = NaN"
| "add64 _ NaN = NaN"
| "add64 (Fin a) (Fin b) = fin (a + b)"
| "add64 PInf NInf = NaN"
| "add64 NInf PInf = NaN"
| "add64 PInf _ = PInf"
| "add64 _ PInf = PInf"
| "add64 NInf _ = NInf"
| "add64 _ NInf = NInf"

definition sub64 :: "pyfloat \<Rightarrow> pyfloat \<Rightarrow> pyfloat" where
  "sub64 a b = add64 a (fneg b)"

fun sign_of :: "pyfloat \<Rightarrow> int" where
  "sign_of (Fin a) = (if a < 0 then - 1 else if a = 0 then 0 else 1)"
| "sign_of PInf = 1"
| "sign_of NInf = - 1"
| "sign_of NaN = 0"

text \<open>A product with an infinite factor is an infinity of the product's sign, and NaN when
  the other factor is zero.\<close>

fun mul64 :: "pyfloat \<Rightarrow> pyfloat \<Rightarrow> pyfloat" where
  "mul64 NaN _ = NaN"
| "mul64 _ NaN = NaN"
| "mul64 (Fin a) (Fin b) = fin (a * b)"
| "mul64 a b =
     (if sign_of a * sign_of b = 0 then NaN
      else if 0 < sign_of a * sign_of b then PInf else NInf)"

text \<open>IEEE equality \<open>a == b\<close>: false when a side is NaN.\<close>

definition feq :: "pyfloat \<Rightarrow> pyfloat \<Rightarrow> bool" where
  "feq a b = (\<not> isnan a \<and> a = b)"

text \<open>pandas' \<open>zsqrt\<close>: the square root, with 0 for a negative argument.\<close>

fun zsqrt :: "pyfloat \<Rightarrow> pyfloat" where
  "zsqrt (Fin a) = (if a < 0 then Fin 0 else Fin (sqrt a))"
| "zsqrt PInf = PInf"
| "zsqrt NInf = Fin 0"
| "zsqrt NaN = NaN"

definition fmax :: "pyfloat list \<Rightarrow> pyfloat" where
  "fmax vs = foldl py_max (hd vs) (tl vs)"

section \<open>The data frames\<close>

text \<open>
  A parsed \<open>Timestamp\<close> cell, as the accessors of pandas read it: \<open>.dt.hour\<close>,
  \<open>.dt.dayofweek\<close> (Monday is 0), \<open>.dt.month\<close>, \<open>.dt.date\<close>.
\<close>

record timestamp =
  ts_year :: nat
  ts_month :: nat
  ts_day :: nat
  ts_hour :: nat
  ts_minute :: nat
  ts_dayofweek :: nat

text \<open>
  One row of \<open>smart_grid_dataset.csv\<close> after \<open>pd.to_datetime\<close>,
  \<open>sort_values("Timestamp")\<close> and \<open>reset_index\<close>: the columns the scripts name, and
  the remaining columns of the file, which only \<open>dropna\<close> looks at.  Every row has a
  parsed timestamp.
\<close>

record reading =
  Timestamp :: timestamp
  Voltage :: pyfloat
  Current :: pyfloat
  Reactive_Power :: pyfloat
  Power_Factor :: pyfloat
  Power_Consumption :: pyfloat
  other_columns :: "pyfloat list"

text \<open>A row with the engineered columns added.\<close>

record features = reading +
  hour :: nat
  dayofweek :: nat
  month :: nat
  is_weekend :: nat
  power_lag_1 :: pyfloat
  power_lag_2 :: pyfloat
  power_lag_4 :: pyfloat
  power_roll_mean_1h :: pyfloat
  power_roll_std_1h :: pyfloat
  power_roll_max_1h :: pyfloat

text \<open>A row of \<open>df_test\<close> once the column \<open>predicted_kw\<close> is attached.\<close>

record prediction = features +
  predicted_kw :: pyfloat

section \<open>Feature engineering (both scripts, written alike)\<close>

text \<open>\<open>Series.shift(k)\<close>: every value moves \<open>k\<close> rows down, the first \<open>k\<close> rows hold NaN.\<close>

definition shift :: "nat \<Rightarrow> pyfloat list \<Rightarrow> pyfloat list" where
  "shift k col = replicate (min k (length col)) NaN @ take (length col - k) col"

text \<open>
  \<open>Series.rolling(4).max()\<close>: row \<open>i\<close> holds the maximum of rows \<open>i-3 .. i\<close>, and NaN
  while fewer than four rows are available or when the window holds a NaN
  (\<open>min_periods\<close> defaults to the window size).  pandas finds it with a queue of
  candidates instead of a scan of the window; a maximum has no running sum that could
  carry an overflow from one window into the next, so the value is that of the scan.
\<close>

definition rolling4 :: "(pyfloat list \<Rightarrow> pyfloat) \<Rightarrow> pyfloat list \<Rightarrow> pyfloat list" where
  "rolling4 agg col =
     map (\<lambda>i. if i < 3 then NaN
              else let w = take 4 (drop (i - 3) col)
                   in if list_ex isnan w then NaN else agg w)
       [0..<length col]"

text \<open>
  \<open>Series.rolling(4).mean()\<close> is pandas' \<open>roll_mean\<close>.  It does not sum each window
  afresh: it keeps a running sum with Kahan compensation, adds the row that enters the
  window and removes the row that leaves it, so an infinity or a NaN that once got into
  the sum stays there for all later rows.  NaN cells are skipped and only lower the
  count of observations.
\<close>

record mean_state =
  m_nobs :: nat
  m_sum_x :: pyfloat
  m_neg_ct :: nat
  m_compensation_add :: pyfloat
  m_compensation_remove :: pyfloat
  m_num_consecutive_same_value :: nat
  m_prev_value :: pyfloat

definition add_mean :: "pyfloat \<Rightarrow> mean_state \<Rightarrow> mean_state" where
  "add_mean val st =
     (if isnan val then st
      else let y = sub64 val (m_compensation_add st);
               t = add64 (m_sum_x st) y
           in st\<lparr>m_nobs := m_nobs st + 1,
                 m_compensation_add := sub64 (sub64 t (m_sum_x st)) y,
                 m_sum_x := t,
                 m_neg_ct := (if flt val (Fin 0) then m_neg_ct st + 1 else m_neg_ct st),
                 m_num_consecutive_same_value :=
                   (if feq val (m_prev_value st) then m_num_consecutive_same_value st + 1
                    else 1),
                 m_prev_value := val\<rparr>)"

definition remove_mean :: "pyfloat \<Rightarrow> mean_state \<Rightarrow> mean_state" where
  "remove_mean val st =
     (if isnan val then st
      else let y = sub64 (fneg val) (m_compensation_remove st);
               t = add64 (m_sum_x st) y
           in st\<lparr>m_nobs := m_nobs st - 1,
                 m_compensation_remove := sub64 (sub64 t (m_sum_x st)) y,
                 m_sum_x := t,
                 m_neg_ct := (if flt val (Fin 0) then m_neg_ct st - 1 else m_neg_ct st)\<rparr>)"

definition calc_mean :: "nat \<Rightarrow> mean_state \<Rightarrow> pyfloat" where
  "calc_mean minp st =
     (if minp \<le> m_nobs st \<and> 0 < m_nobs st then
        let result = fdiv_count (m_sum_x st) (m_nobs st)
        in if m_nobs st \<le> m_num_consecutive_same_value st then m_prev_value st
           else if m_neg_ct st = 0 \<and> flt result (Fin 0) then Fin 0
           else if m_neg_ct st = m_nobs st \<and> flt (Fin 0) result then Fin 0
           else result
      else NaN)"

text \<open>The state after row \<open>i\<close>: row 0 starts it, every later row removes row \<open>i - 4\<close>
  (once there is one) and adds row \<open>i\<close>.\<close>

fun mean_scan :: "pyfloat list \<Rightarrow> nat \<Rightarrow> mean_state" where
  "mean_scan values 0 =
     add_mean (values ! 0)
       \<lparr>m_nobs = 0, m_sum_x = Fin 0, m_neg_ct = 0, m_compensation_add = Fin 0,
        m_compensation_remove = Fin 0, m_num_consecutive_same_value = 0,
        m_prev_value = values ! 0\<rparr>"
| "mean_scan values (Suc i) =
     add_mean (values ! Suc i)
       (if 4 \<le> Suc i then remove_mean (values ! (Suc i - 4)) (mean_scan values i)
        else mean_scan values i)"

definition roll_mean :: "pyfloat list \<Rightarrow> pyfloat list" where
  "roll_mean values = map (\<lambda>i. calc_mean 4 (mean_scan values i)) [0..<length values]"

text \<open>
  \<open>Series.rolling(4).std()\<close> is \<open>zsqrt\<close> of pandas' \<open>roll_var\<close> with \<open>ddof = 1\<close>:
  Welford's running mean and sum of squared deviations, with Kahan compensation, updated
  by the row that enters and the row that leaves.  An overflow of the sum of squared
  deviations, or an infinite reading, turns it into an infinity or a NaN that the later
  rows inherit.
\<close>

record var_state =
  v_nobs :: nat
  v_mean_x :: pyfloat
  v_ssqdm_x :: pyfloat
  v_compensation_add :: pyfloat
  v_compensation_remove :: pyfloat
  v_num_consecutive_same_value :: nat
  v_prev_value :: pyfloat

definition add_var :: "pyfloat \<Rightarrow> var_state \<Rightarrow> var_state" where
  "add_var val st =
     (if isnan val then st
      else let nobs = v_nobs st + 1;
               prev_mean = sub64 (v_mean_x st) (v_compensation_add st);
               y = sub64 val (v_compensation_add st);
               t = sub64 y (v_mean_x st);
               compensation = sub64 (add64 t (v_mean_x st)) y;
               mean_x = add64 (v_mean_x st) (fdiv_count t nobs)
           in st\<lparr>v_nobs := nobs,
                 v_num_consecutive_same_value :=
                   (if feq val (v_prev_value st) then v_num_consecutive_same_value st + 1
                    else 1),
                 v_prev_value := val,
                 v_compensation_add := compensation,
                 v_mean_x := mean_x,
                 v_ssqdm_x :=
                   add64 (v_ssqdm_x st) (mul64 (sub64 val prev_mean) (sub64 val mean_x))\<rparr>)"

definition remove_var :: "pyfloat \<Rightarrow> var_state \<Rightarrow> var_state" where
  "remove_var val st =
     (if isnan val then st
      else let nobs = v_nobs st - 1
           in if nobs \<noteq> 0 then
                let prev_mean = sub64 (v_mean_x st) (v_compensation_remove st);
                    y = sub64 val (v_compensation_remove st);
                    t = sub64 y (v_mean_x st);
                    compensation = sub64 (add64 t (v_mean_x st)) y;
                    mean_x = sub64 (v_mean_x st) (fdiv_count t nobs)
                in st\<lparr>v_nobs := nobs,
                      v_compensation_remove := compensation,
                      v_mean_x := mean_x,
                      v_ssqdm_x :=
                        sub64 (v_ssqdm_x st)
                          (mul64 (sub64 val prev_mean) (sub64 val mean_x))\<rparr>
              else st\<lparr>v_nobs := nobs, v_mean_x := Fin 0, v_ssqdm_x := Fin 0\<rparr>)"

definition calc_var :: "nat \<Rightarrow> nat \<Rightarrow> var_state \<Rightarrow> pyfloat" where
  "calc_var minp ddof st =
     (if minp \<le> v_nobs st \<and> ddof < v_nobs st then
        if v_nobs st = 1 \<or> v_nobs st \<le> v_num_consecutive_same_value st then Fin 0
        else fdiv_count (v_ssqdm_x st) (v_nobs st - ddof)
      else NaN)"

fun var_scan :: "pyfloat list \<Rightarrow> nat \<Rightarrow> var_state" where
  "var_scan values 0 =
     add_var (values ! 0)
       \<lparr>v_nobs = 0, v_mean_x = Fin 0, v_ssqdm_x = Fin 0, v_compensation_add = Fin 0,
        v_compensation_remove = Fin 0, v_num_consecutive_same_value = 0,
        v_prev_value = values ! 0\<rparr>"
| "var_scan values (Suc i) =
     add_var (values ! Suc i)
       (if 4 \<le> Suc i then remove_var (values ! (Suc i - 4)) (var_scan values i)
        else var_scan values i)"

definition roll_var :: "pyfloat list \<Rightarrow> pyfloat list" where
  "roll_var values = map (\<lambda>i. calc_var 4 1 (var_scan values i)) [0..<length values]"

definition roll_std :: "pyfloat list \<Rightarrow> pyfloat list" where
  "roll_std values = map zsqrt (roll_var values)"

definition add_features :: "reading list \<Rightarrow> features list" where
  "add_features df =
     (let power = map Power_Consumption df;
          lag_1 = shift 1 power;
          lag_2 = shift 2 power;
          lag_4 = shift 4 power;
          roll_mean_1h = roll_mean power;
          roll_std_1h = roll_std power;
          roll_max_1h = rolling4 fmax power
      in map (\<lambda>i. let r = df ! i; t = Timestamp r
                   in \<lparr>Timestamp = t, Voltage = Voltage r, Current = Current r,
                       Reactive_Power = Reactive_Power r, Power_Factor = Power_Factor r,
                       Power_Consumption = Power_Consumption r,
                       other_columns = other_columns r,
                       hour = ts_hour t, dayofweek = ts_dayofweek t, month = ts_month t,
                       is_weekend = (if ts_dayofweek t \<in> {5, 6} then 1 else 0),
                       power_lag_1 = lag_1 ! i, power_lag_2 = lag_2 ! i,
                       power_lag_4 = lag_4 ! i, power_roll_mean_1h = roll_mean_1h ! i,
                       power_roll_std_1h = roll_std_1h ! i,
                       power_roll_max_1h = roll_max_1h ! i\<rparr>)
           [0..<length df])"

text \<open>\<open>dropna\<close> removes every row that holds a NaN in any column.\<close>

definition has_nan :: "features \<Rightarrow> bool" where
  "has_nan r =
     list_ex isnan
       ([Voltage r, Current r, Reactive_Power r, Power_Factor r, Power_Consumption r]
        @ other_columns r
        @ [power_lag_1 r, power_lag_2 r, power_lag_4 r,
           power_roll_mean_1h r, power_roll_std_1h r, power_roll_max_1h r])"

definition dropna :: "features list \<Rightarrow> features list" where
  "dropna df = filter (\<lambda>r. \<not> has_nan r) df"

definition engineer :: "reading list \<Rightarrow> features list" where
  "engineer df = dropna (add_features df)"

datatype py_error = ValueError

section \<open>The 80/20 split\<close>

subsection \<open>The binary64 products \<open>len * 0.8\<close> and \<open>0.2 * len\<close>\<close>

text \<open>
  Both scripts derive the cut from a product of the row count with a float literal, and the
  integer they keep depends on how that product is rounded.  A non-negative double is
  written here as \<open>significand / 2 ^ scale\<close>.  \<open>round53\<close> rounds a natural number to 53
  significant bits, a tie going to the even significand, which is what the conversion of a
  Python \<open>int\<close> to a float and the multiplication of two floats do (overflow and
  underflow are out of reach for the values that occur).
\<close>

fun bit_length :: "nat \<Rightarrow> nat" where
  "bit_length n = (if n = 0 then 0 else Suc (bit_length (n div 2)))"

declare bit_length.simps [simp del]

definition round53 :: "nat \<Rightarrow> nat" where
  "round53 p =
     (let s = bit_length p - 53; q = p div 2 ^ s; r = p mod 2 ^ s
      in if 2 * r < 2 ^ s \<or> (2 * r = 2 ^ s \<and> even q) then q * 2 ^ s else (q + 1) * 2 ^ s)"

record double =
  significand :: nat
  scale :: nat

definition double_value :: "double \<Rightarrow> real" where
  "double_value a = real (significand a) / 2 ^ scale a"

text \<open>The literals: \<open>0.8\<close> is \<open>0x1.999999999999Ap-1\<close>, \<open>0.2\<close> is \<open>0x1.999999999999Ap-3\<close>.\<close>

definition double_0_8 :: double where
  "double_0_8 = \<lparr>significand = 7205759403792794, scale = 53\<rparr>"

definition double_0_2 :: double where
  "double_0_2 = \<lparr>significand = 7205759403792794, scale = 55\<rparr>"

definition double_of_nat :: "nat \<Rightarrow> double" where
  "double_of_nat n = \<lparr>significand = round53 n, scale = 0\<rparr>"

definition double_mul :: "double \<Rightarrow> double \<Rightarrow> double" where
  "double_mul a b =
     \<lparr>significand = round53 (significand a * significand b), scale = scale a + scale b\<rparr>"

text \<open>\<open>int(x)\<close> truncates; \<open>math.ceil(x)\<close> rounds up.\<close>

definition double_to_int :: "double \<Rightarrow> nat" where
  "double_to_int a = significand a div 2 ^ scale a"

definition double_ceil :: "double \<Rightarrow> nat" where
  "double_ceil a = (significand a + 2 ^ scale a - 1) div 2 ^ scale a"

subsection \<open>serve\_model.py, lines 72--74\<close>

text \<open>
  \<open>split_idx = int(len(df_raw) * 0.8)\<close>, \<open>df_train = df_raw.iloc[:split_idx]\<close>,
  \<open>df_test = df_raw.iloc[split_idx:]\<close>.  The three statements take no fraction and
  contain no check, \<open>raise\<close> or exit.
\<close>

definition split_idx :: "nat \<Rightarrow> nat" where
  "split_idx len = double_to_int (double_mul (double_of_nat len) double_0_8)"

definition df_train :: "'a list \<Rightarrow> 'a list" where
  "df_train df_raw = take (split_idx (length df_raw)) df_raw"

definition df_test :: "'a list \<Rightarrow> 'a list" where
  "df_test df_raw = drop (split_idx (length df_raw)) df_raw"

subsection \<open>train\_forecast\_model.py, lines 92--94\<close>

text \<open>
  \<open>train_test_split(X, y, test_size=0.2, shuffle=False)\<close> is scikit-learn's.  For a
  float \<open>test_size\<close> and no \<open>train_size\<close> it computes
  \<open>n_test = ceil(test_size * n_samples)\<close> and \<open>n_train = n_samples - n_test\<close>, raises
  \<open>ValueError\<close> when \<open>n_train + n_test > n_samples\<close> or when \<open>n_train == 0\<close>, and
  without shuffling hands out rows \<open>0 .. n_train - 1\<close> as the training part and rows
  \<open>n_train .. n_train + n_test - 1\<close> as the test part.
\<close>

definition validate_shuffle_split :: "nat \<Rightarrow> py_error + (nat \<times> nat)" where
  "validate_shuffle_split n_samples =
     (let n_test = int (double_ceil (double_mul double_0_2 (double_of_nat n_samples)));
          n_train = int n_samples - n_test
      in if int n_samples < n_train + n_test then Inl ValueError
         else if n_train = 0 then Inl ValueError
         else Inr (nat n_train, nat n_test))"

definition train_test_split :: "'a list \<Rightarrow> py_error + ('a list \<times> 'a list)" where
  "train_test_split X =
     (case validate_shuffle_split (length X) of
        Inl e \<Rightarrow> Inl e
      | Inr (n_train, n_test) \<Rightarrow> Inr (take n_train X, take n_test (drop n_train X)))"

section \<open>serve\_model.py: \<open>safe_float\<close>\<close>

text \<open>
  The argument of \<open>safe_float\<close> is \<open>None\<close>, an instance of Python's \<open>float\<close>
  (NumPy's \<open>float64\<close> is one), or another numeric such as an \<open>int\<close> or a NumPy
  \<open>float32\<close>, for which \<open>isinstance(val, float)\<close> is false; \<open>PyNumber\<close> carries
  \<open>float(val)\<close> of such a value.  The result is \<open>None\<close> (JSON \<open>null\<close>) or a float.
\<close>

datatype pyval = PyNone | PyFloat pyfloat | PyNumber pyfloat

fun safe_float :: "pyval \<Rightarrow> pyfloat option" where
  "safe_float PyNone = None"
| "safe_float (PyFloat v) = (if isnan v then None else Some (py_round v 4))"
| "safe_float (PyNumber v) = Some (py_round v 4)"

section \<open>serve\_model.py: \<open>/forecast\<close>, tomorrow's profile\<close>

text \<open>
  \<open>median\<close> as pandas aggregates it: NaN entries are skipped, the remaining values are
  put in ascending order, and the result is the middle value, or the mean of the two
  middle values when their number is even; NaN when nothing remains.
\<close>

fun insert_asc :: "pyfloat \<Rightarrow> pyfloat list \<Rightarrow> pyfloat list" where
  "insert_asc v [] = [v]"
| "insert_asc v (w # ws) = (if flt w v then w # insert_asc v ws else v # w # ws)"

definition sort_asc :: "pyfloat list \<Rightarrow> pyfloat list" where
  "sort_asc vs = foldr insert_asc vs []"

definition median :: "pyfloat list \<Rightarrow> pyfloat" where
  "median col =
     (let vs = sort_asc (filter (\<lambda>v. \<not> isnan v) col); n = length vs
      in if n = 0 then NaN
         else if odd n then vs ! (n div 2)
         else fdiv_count (fadd (vs ! (n div 2 - 1)) (vs ! (n div 2))) 2)"

text \<open>
  \<open>dow_rows.groupby("hour").agg(predicted=("predicted_kw", "median")).reindex(range(24))\<close>,
  read at row \<open>h\<close>: the median of the group of hour \<open>h\<close>, and NaN where \<open>reindex\<close> finds
  no such group.
\<close>

definition dow_hourly :: "prediction list \<Rightarrow> nat \<Rightarrow> pyfloat" where
  "dow_hourly dow_rows h =
     (let grp = filter (\<lambda>r. hour r = h) dow_rows
      in if grp = [] then NaN else median (map predicted_kw grp))"

text \<open>The label \<open>f"{h:02d}:00"\<close>, for the hours below 100.\<close>

definition digit :: "nat \<Rightarrow> char" where
  "digit d = char_of (48 + d)"

definition hour_label :: "nat \<Rightarrow> string" where
  "hour_label h = [digit (h div 10), digit (h mod 10)] @ '':00''"

record tomorrow_entry =
  te_hour :: nat
  te_label :: string
  te_predicted :: "pyfloat option"
  te_confidence :: nat

definition CONFIDENCE_BASE :: nat where
  "CONFIDENCE_BASE = 88"

text \<open>
  Lines 149--171.  \<open>test_rows\<close> is the frame \<open>df_test\<close> with its column
  \<open>predicted_kw\<close>, \<open>today_weekday\<close> is \<open>datetime.now().weekday()\<close>.  After \<open>reindex\<close>
  every \<open>h\<close> of \<open>range(24)\<close> is in the index and \<open>pred\<close> is a float, never \<open>None\<close>, so
  the guard of line 169 comes down to \<open>not math.isnan(float(pred))\<close>.
\<close>

definition tomorrow_rows :: "prediction list \<Rightarrow> nat \<Rightarrow> prediction list" where
  "tomorrow_rows test_rows today_weekday =
     (let tomorrow_dow = (today_weekday + 1) mod 7;
          dow_rows = filter (\<lambda>r. dayofweek r = tomorrow_dow) test_rows
      in if dow_rows = [] then test_rows else dow_rows)"

definition forecastTomorrow :: "prediction list \<Rightarrow> nat \<Rightarrow> tomorrow_entry list" where
  "forecastTomorrow test_rows today_weekday =
     (let dow_rows = tomorrow_rows test_rows today_weekday
      in map (\<lambda>h. let pred = dow_hourly dow_rows h
                   in \<lparr>te_hour = h, te_label = hour_label h,
                       te_predicted =
                         (if \<not> isnan pred then safe_float (PyFloat pred) else Some (Fin 0)),
                       te_confidence = CONFIDENCE_BASE + h mod 4\<rparr>)
           [0..<24])"

section \<open>serve\_model.py: \<open>/peak\<close>, histogram\<close>

definition bins :: "pyfloat list" where
  "bins = [Fin 0, Fin 2, Fin 4, Fin 6, Fin 8, Fin 10, Fin 12, PInf]"

definition labels :: "string list" where
  "labels = [''0-2 kW'', ''2-4 kW'', ''4-6 kW'', ''6-8 kW'', ''8-10 kW'', ''10-12 kW'', ''12+ kW'']"

text \<open>
  \<open>pd.cut(x, bins=bins, labels=labels)\<close> with its defaults \<open>right=True\<close> and
  \<open>include_lowest=False\<close>: the position of \<open>x\<close> is the number of edges strictly below it
  (\<open>searchsorted\<close> from the left); a NaN, position 0 and position \<open>len(bins)\<close> give no
  category, any other position \<open>p\<close> gives \<open>labels[p - 1]\<close>.
\<close>

definition pd_cut :: "pyfloat \<Rightarrow> string option" where
  "pd_cut x =
     (let ids = length (filter (\<lambda>b. flt b x) bins)
      in if isnan x \<or> ids = 0 \<or> ids = length bins then None
         else Some (labels ! (ids - 1)))"

record histogram_entry =
  hist_range :: string
  hist_count :: nat

text \<open>
  \<open>pred_series.value_counts().reindex(labels, fill_value=0)\<close>: one count per label, in
  the order of \<open>labels\<close>.
\<close>

definition histogram :: "prediction list \<Rightarrow> histogram_entry list" where
  "histogram df_work =
     (let pred_series = map (\<lambda>r. pd_cut (predicted_kw r)) df_work
      in map (\<lambda>lbl. \<lparr>hist_range = lbl,
                      hist_count = length (filter (\<lambda>c. c = Some lbl) pred_series)\<rparr>)
           labels)"

section \<open>serve\_model.py: \<open>/peak\<close>, top 10\<close>






section \<open>serve\_model.py: evaluation metric \<open>R2_VAL\<close>\<close>

text \<open>
  \<open>r2_score\<close> is scikit-learn's.  It raises \<open>ValueError\<close> when the two inputs differ in
  length, are empty or hold a non-finite entry, and with fewer than two samples it returns
  not-a-number.  Otherwise it computes, in binary64,

    \<^item> \<open>numerator = ((y_true - y_pred) ** 2).sum()\<close>,
    \<^item> \<open>denominator = ((y_true - np.average(y_true)) ** 2).sum()\<close>,

  and returns \<open>1 - numerator / denominator\<close> when both are non-zero, 0.0 when only the
  denominator is zero, and 1.0 when the numerator is zero.  A square too large for
  binary64 is an infinity, and a square of at most \<open>2^-1075\<close>, half the least positive
  binary64 number, is zero.  The sums are taken in the order of the rows; NumPy adds in
  blocks, and without rounding the order only matters when a partial sum of the actual
  values overflows.
\<close>

fun finite_values :: "pyfloat list \<Rightarrow> real list option" where
  "finite_values [] = Some []"
| "finite_values (Fin x # vs) = map_option ((#) x) (finite_values vs)"
| "finite_values (_ # vs) = None"

definition underflow_threshold :: real where
  "underflow_threshold = 1 / 2 ^ 1075"

fun square64 :: "pyfloat \<Rightarrow> pyfloat" where
  "square64 (Fin a) = (if a * a \<le> underflow_threshold then Fin 0 else fin (a * a))"
| "square64 NaN = NaN"
| "square64 _ = PInf"

definition sum64 :: "pyfloat list \<Rightarrow> pyfloat" where
  "sum64 vs = foldl add64 (Fin 0) vs"

text \<open>IEEE division (the sign of a zero is not kept).\<close>

fun div64 :: "pyfloat \<Rightarrow> pyfloat \<Rightarrow> pyfloat" where
  "div64 NaN _ = NaN"
| "div64 _ NaN = NaN"
| "div64 (Fin a) (Fin b) =
     (if b \<noteq> 0 then fin (a / b)
      else if a = 0 then NaN else if 0 < a then PInf else NInf)"
| "div64 (Fin a) _ = Fin 0"
| "div64 a (Fin b) = (if b < 0 then fneg a else a)"
| "div64 _ _ = NaN"

definition numerator :: "real list \<Rightarrow> real list \<Rightarrow> pyfloat" where
  "numerator ys ps = sum64 (map (\<lambda>(y, p). square64 (sub64 (Fin y) (Fin p))) (zip ys ps))"

definition denominator :: "real list \<Rightarrow> pyfloat" where
  "denominator ys =
     (let average = fdiv_count (sum64 (map Fin ys)) (length ys)
      in sum64 (map (\<lambda>y. square64 (sub64 (Fin y) average)) ys))"

definition r2_score :: "pyfloat list \<Rightarrow> pyfloat list \<Rightarrow> py_error + pyfloat" where
  "r2_score y_true y_pred =
     (case (finite_values y_true, finite_values y_pred) of
        (Some ys, Some ps) \<Rightarrow>
          if length ys \<noteq> length ps \<or> ys = [] then Inl ValueError
          else if length ys < 2 then Inr NaN
          else if denominator ys \<noteq> Fin 0 \<and> numerator ys ps \<noteq> Fin 0
            then Inr (sub64 (Fin 1) (div64 (numerator ys ps) (denominator ys)))
          else if numerator ys ps \<noteq> Fin 0 then Inr (Fin 0)
          else Inr (Fin 1)
      | _ \<Rightarrow> Inl ValueError)"

text \<open>\<open>R2_VAL = float(max(0.0, r2_score(y_test, y_pred_all)))\<close>; an exception propagates.\<close>

definition R2_VAL :: "pyfloat list \<Rightarrow> pyfloat list \<Rightarrow> py_error + pyfloat" where
  "R2_VAL y_test y_pred_all =
     (case r2_score y_test y_pred_all of
        Inl e \<Rightarrow> Inl e
      | Inr r \<Rightarrow> Inr (py_max (Fin 0) r))"

text \<open>The \<open>"r2"\<close> entry of \<open>modelStats\<close> is \<open>round(R2_VAL, 4)\<close>.\<close>

definition r2_reported :: "pyfloat list \<Rightarrow> pyfloat list \<Rightarrow> py_error + pyfloat" where
  "r2_reported y_test y_pred_all =
     (case R2_VAL y_test y_pred_all of
        Inl e \<Rightarrow> Inl e
      | Inr r \<Rightarrow> Inr (py_round r 4))"

section \<open>Notions used in the statements\<close>

text \<open>
  A raw row without missing values: no cell of it is NaN, which is what pandas takes
  for missing.  An infinite cell is not missing.
\<close>

definition no_missing_values :: "reading \<Rightarrow> bool" where
  "no_missing_values r =
     (\<not> list_ex isnan
          ([Voltage r, Current r, Reactive_Power r, Power_Factor r, Power_Consumption r]
           @ other_columns r))"

text \<open>
  A power reading of moderate size: a finite number of magnitude at most \<open>10^150\<close>, so
  that no square of a difference of two readings leaves the binary64 range.
\<close>

definition reading_bound :: real where
  "reading_bound = 10 ^ 150"

definition moderate_power :: "reading \<Rightarrow> bool" where
  "moderate_power r =
     (case Power_Consumption r of Fin x \<Rightarrow> \<bar>x\<bar> \<le> reading_bound | _ \<Rightarrow> False)"

text \<open>The sum and the sum of squares of the rows \<open>js\<close> of a column of reals.\<close>

definition wsum1 :: "real list \<Rightarrow> nat list \<Rightarrow> real" where
  "wsum1 xs js = sum_list (map ((!) xs) js)"

definition wsum2 :: "real list \<Rightarrow> nat list \<Rightarrow> real" where
  "wsum2 xs js = sum_list (map (\<lambda>j. (xs ! j)\<^sup>2) js)"

text \<open>
  The coefficient of determination as the specification writes it,
  \<open>1 - SS_res / SS_tot\<close>, over the real numbers.
\<close>

definition ss_res :: "real list \<Rightarrow> real list \<Rightarrow> real" where
  "ss_res ys ps = sum_list (map (\<lambda>(y, p). (y - p)\<^sup>2) (zip ys ps))"

definition ss_tot :: "real list \<Rightarrow> real" where
  "ss_tot ys = (let m = sum_list ys / real (length ys) in sum_list (map (\<lambda>y. (y - m)\<^sup>2) ys))"

definition mathematical_r2 :: "real list \<Rightarrow> real list \<Rightarrow> real" where
  "mathematical_r2 ys ps = 1 - ss_res ys ps / ss_tot ys"

text \<open>
  Lines 72--74 of serve\_model.py as one operation with an explicit outcome: since none of
  the three statements can raise, the outcome is always a pair of frames.
\<close>

definition serve_split :: "'a list \<Rightarrow> py_error + ('a list \<times> 'a list)" where
  "serve_split df_raw = Inr (df_train df_raw, df_test df_raw)"

text \<open>
  The median of a non-empty list of reals as a textbook has it: sort, then take the middle
  value, or the mean of the two middle values.
\<close>

definition textbook_median :: "real list \<Rightarrow> real" where
  "textbook_median xs =
     (let ys = sort xs; n = length ys
      in if odd n then ys ! (n div 2) else (ys ! (n div 2 - 1) + ys ! (n div 2)) / 2)"

text \<open>Rows for the examples.\<close>

definition sample_reading :: "pyfloat \<Rightarrow> reading" where
  "sample_reading p =
     \<lparr>Timestamp = \<lparr>ts_year = 2024, ts_month = 1, ts_day = 1, ts_hour = 0, ts_minute = 0,
                    ts_dayofweek = 0\<rparr>,
      Voltage = Fin 230, Current = Fin 5, Reactive_Power = Fin 1, Power_Factor = Fin 1,
      Power_Consumption = p, other_columns = []\<rparr>"

text \<open>Six rows whose last power reading is infinite.\<close>

definition infinite_reading_frame :: "reading list" where
  "infinite_reading_frame = map sample_reading [Fin 1, Fin 2, Fin 3, Fin 4, Fin 5, PInf]"

text \<open>Five rows with finite power readings, the first of them \<open>2^600\<close>.\<close>

definition huge_readings :: "pyfloat list" where
  "huge_readings = [Fin (2 ^ 600), Fin 1, Fin 2, Fin 3, Fin 4]"

definition huge_reading_frame :: "reading list" where
  "huge_reading_frame = map sample_reading huge_readings"

definition sample_prediction :: "nat \<Rightarrow> nat \<Rightarrow> pyfloat \<Rightarrow> prediction" where
  "sample_prediction h d p =
     \<lparr>Timestamp = \<lparr>ts_year = 2024, ts_month = 1, ts_day = 1 + d, ts_hour = h, ts_minute = 0,
                    ts_dayofweek = d\<rparr>,
      Voltage = Fin 230, Current = Fin 5, Reactive_Power = Fin 1, Power_Factor = Fin 1,
      Power_Consumption = Fin 3, other_columns = [],
      hour = h, dayofweek = d, month = 1, is_weekend = (if d \<in> {5, 6} then 1 else 0),
      power_lag_1 = Fin 3, power_lag_2 = Fin 3, power_lag_4 = Fin 3,
      power_roll_mean_1h = Fin 3, power_roll_std_1h = Fin 0, power_roll_max_1h = Fin 3,
      predicted_kw = p\<rparr>"

definition sample_cache :: "prediction list" where
  "sample_cache =
     [sample_prediction 7 3 (Fin 1), sample_prediction 7 3 (Fin 9), sample_prediction 7 3 (Fin 2),
      sample_prediction 7 4 (Fin 100), sample_prediction 8 3 (Fin 5)]"


section \<open>Properties\<close>

subsection \<open>Rounding and clamping\<close>

lemma round_half_even_of_int: "round_half_even (of_int k) = k"
  by (simp add: round_half_even_def)

lemma round_half_even_nonneg: "0 \<le> x \<Longrightarrow> 0 \<le> round_half_even x"
  by (auto simp: round_half_even_def Let_def)

lemma round_half_even_near: "\<bar>x - of_int (round_half_even x)\<bar> \<le> 1 / 2"
  unfolding round_half_even_def Let_def by (auto; linarith)

lemma py_round_zero: "py_round (Fin 0) n = Fin 0"
  using round_half_even_of_int [of 0] by (simp add: py_round_def)

lemma py_round_nonneg: "\<not> flt v (Fin 0) \<Longrightarrow> \<not> flt (py_round v n) (Fin 0)"
proof (cases v)
  case (Fin x)
  assume "\<not> flt v (Fin 0)"
  with Fin have "0 \<le> x * 10 ^ n" by simp
  then have "0 \<le> round_half_even (x * 10 ^ n)" by (rule round_half_even_nonneg)
  then have "0 \<le> real_of_int (round_half_even (x * 10 ^ n)) / 10 ^ n" by simp
  with Fin show ?thesis by (simp add: py_round_def not_less)
qed (simp_all add: py_round_def)

lemma py_max_nonneg: "\<not> flt (py_max (Fin 0) r) (Fin 0)"
  by (cases r) (auto simp: py_max_def)

lemma safe_float_round4:
  "\<exists>k::int. safe_float (PyFloat (Fin x)) = Some (Fin (of_int k / 10 ^ 4)) \<and>
     \<bar>x - of_int k / 10 ^ 4\<bar> \<le> 1 / 20000"
proof -
  let ?k = "round_half_even (x * 10 ^ 4)"
  have "\<bar>x * 10 ^ 4 - of_int ?k\<bar> \<le> 1 / 2" by (rule round_half_even_near)
  then have "\<bar>x - of_int ?k / 10 ^ 4\<bar> \<le> 1 / 20000" by (simp add: field_simps abs_le_iff)
  then show ?thesis by (auto simp: py_round_def)
qed

lemma py_round_of_int: "py_round (Fin (of_int k)) n = Fin (of_int k)"
proof -
  have "round_half_even (of_int k * 10 ^ n) = k * 10 ^ n"
    using round_half_even_of_int [of "k * 10 ^ n"] by simp
  then show ?thesis by (simp add: py_round_def)
qed


subsection \<open>Payload numbers: \<open>safe_float\<close>\<close>

text \<open>
  Claim C3.  The claim asks for a null in place of every non-finite number, and the
  docstring of \<open>safe_float\<close> promises a JSON-serialisable float.  The guard of line 105
  catches \<open>None\<close> and a NaN that is an instance of Python's \<open>float\<close>, and nothing else:
  an infinite float is rounded, and \<open>round\<close> returns it unchanged; a NaN of another
  numeric type, such as NumPy's \<open>float32\<close>, fails \<open>isinstance(val, float)\<close> and is
  returned as NaN.  Neither is null.
\<close>

theorem safe_float_passes_non_finite:
  "safe_float (PyFloat PInf) = Some PInf \<and>
   safe_float (PyFloat NInf) = Some NInf \<and>
   safe_float (PyNumber NaN) = Some NaN \<and>
   safe_float (PyNumber PInf) = Some PInf \<and>
   safe_float (PyNumber NInf) = Some NInf \<and>
   safe_float PyNone = None \<and>
   safe_float (PyFloat NaN) = None"
  by (simp add: py_round_def)

subsection \<open>The floor of \<open>R2_VAL\<close>\<close>

lemmas r2_eval = r2_score_def numerator_def denominator_def sum64_def sub64_def fin_def
  overflow_threshold_def underflow_threshold_def Let_def

lemma r2_score_spec_example:
  "r2_score [Fin 1, Fin 1, Fin 1, Fin 1] [Fin 5, Fin 5, Fin 5, Fin 5] = Inr (Fin 0)"
  by (simp add: r2_eval)

lemma r2_score_positive_example:
  "r2_score [Fin 1, Fin 2, Fin 4] [Fin 1, Fin 2, Fin 3] = Inr (Fin (11 / 14))"
  by (simp add: r2_eval)

lemma r2_score_negative_example:
  "r2_score [Fin 1, Fin 2, Fin 3, Fin 4] [Fin 4, Fin 3, Fin 2, Fin 1] = Inr (Fin (- 3))"
  by (simp add: r2_eval)

text \<open>A residual whose square overflows: the score is \<open>-inf\<close>.\<close>

lemma r2_score_overflow_example:
  "r2_score [Fin 1, Fin 2, Fin 3] [Fin (10 ^ 200), Fin 2, Fin 3] = Inr NInf"
  by (simp add: r2_eval)

text \<open>Residuals and deviations whose squares underflow: the score is 1.\<close>

lemma r2_score_underflow_example:
  "r2_score [Fin (1 / 2 ^ 600), Fin 0] [Fin 0, Fin 0] = Inr (Fin 1)"
  by (simp add: r2_eval)

lemma round_7857: "py_round (Fin (11 / 14)) 4 = Fin (7857 / 10000)"
proof -
  have "\<lfloor>55000 / 7 :: real\<rfloor> = 7857" by (simp add: floor_eq_iff)
  then show ?thesis by (simp add: py_round_def round_half_even_def Let_def)
qed

text \<open>
  Claim C8, as the code has it.  The reported \<open>r2\<close> is \<open>max(0.0, s)\<close> rounded to four
  decimal places, where \<open>s\<close> is the score that \<open>r2_score\<close> computes: a score above 0 is
  reported as itself, every other score (negative, \<open>-inf\<close>, not-a-number, zero) as
  \<open>0.0\<close>, and an exception of \<open>r2_score\<close> is passed on.  The reported value is never
  negative.  For actual \<open>[1,1,1,1]\<close> and predicted \<open>[5,5,5,5]\<close> it is \<open>0.0\<close>; for
  actual \<open>[1,2,4]\<close> and predicted \<open>[1,2,3]\<close> it is \<open>0.7857\<close>.
\<close>

theorem r2_floor:
  "(\<forall>r. r2_score yt yp = Inr r \<longrightarrow>
      R2_VAL yt yp = Inr (if flt (Fin 0) r then r else Fin 0) \<and>
      r2_reported yt yp = Inr (py_round (if flt (Fin 0) r then r else Fin 0) 4)) \<and>
   (\<forall>e. r2_score yt yp = Inl e \<longrightarrow> r2_reported yt yp = Inl e) \<and>
   (\<forall>r. r2_score yt yp = Inr r \<and> \<not> flt (Fin 0) r \<longrightarrow> r2_reported yt yp = Inr (Fin 0)) \<and>
   (\<forall>v. r2_reported yt yp = Inr v \<longrightarrow> \<not> flt v (Fin 0)) \<and>
   r2_reported [Fin 1, Fin 1, Fin 1, Fin 1] [Fin 5, Fin 5, Fin 5, Fin 5] = Inr (Fin 0) \<and>
   r2_reported [Fin 1, Fin 2, Fin 4] [Fin 1, Fin 2, Fin 3] = Inr (Fin (7857 / 10000))"
proof (intro conjI allI impI)
  fix r assume "r2_score yt yp = Inr r"
  then show "R2_VAL yt yp = Inr (if flt (Fin 0) r then r else Fin 0)"
    by (simp add: R2_VAL_def py_max_def)
next
  fix r assume "r2_score yt yp = Inr r"
  then show "r2_reported yt yp = Inr (py_round (if flt (Fin 0) r then r else Fin 0) 4)"
    by (simp add: r2_reported_def R2_VAL_def py_max_def)
next
  fix e assume "r2_score yt yp = Inl e"
  then show "r2_reported yt yp = Inl e"
    by (simp add: r2_reported_def R2_VAL_def)
next
  fix r assume "r2_score yt yp = Inr r \<and> \<not> flt (Fin 0) r"
  then show "r2_reported yt yp = Inr (Fin 0)"
    by (simp add: r2_reported_def R2_VAL_def py_max_def py_round_zero)
next
  fix v assume "r2_reported yt yp = Inr v"
  then obtain r where "v = py_round (py_max (Fin 0) r) 4"
    by (auto simp: r2_reported_def R2_VAL_def split: sum.splits)
  then show "\<not> flt v (Fin 0)"
    using py_round_nonneg [OF py_max_nonneg] by simp
next
  show "r2_reported [Fin 1, Fin 1, Fin 1, Fin 1] [Fin 5, Fin 5, Fin 5, Fin 5] = Inr (Fin 0)"
    by (simp add: r2_reported_def R2_VAL_def r2_score_spec_example py_max_def py_round_zero)
next
  show "r2_reported [Fin 1, Fin 2, Fin 4] [Fin 1, Fin 2, Fin 3] = Inr (Fin (7857 / 10000))"
    by (simp add: r2_reported_def R2_VAL_def r2_score_positive_example py_max_def round_7857)
qed

theorem r2_floor_witness:
  "r2_score [Fin 1, Fin 2, Fin 3, Fin 4] [Fin 4, Fin 3, Fin 2, Fin 1] = Inr (Fin (- 3)) \<and>
   \<not> flt (Fin 0) (Fin (- 3)) \<and>
   R2_VAL [Fin 1, Fin 2, Fin 3, Fin 4] [Fin 4, Fin 3, Fin 2, Fin 1] = Inr (Fin 0) \<and>
   r2_reported [Fin 1, Fin 2, Fin 3, Fin 4] [Fin 4, Fin 3, Fin 2, Fin 1] = Inr (Fin 0) \<and>
   r2_score [Fin 1, Fin 2, Fin 4] [Fin 1, Fin 2, Fin 3] = Inr (Fin (11 / 14)) \<and>
   flt (Fin 0) (Fin (11 / 14)) \<and>
   R2_VAL [Fin 1, Fin 2, Fin 4] [Fin 1, Fin 2, Fin 3] = Inr (Fin (11 / 14))"
  using r2_floor [of "[Fin 1, Fin 2, Fin 3, Fin 4]" "[Fin 4, Fin 3, Fin 2, Fin 1]"]
    r2_floor [of "[Fin 1, Fin 2, Fin 4]" "[Fin 1, Fin 2, Fin 3]"]
    r2_score_negative_example r2_score_positive_example
  by (simp add: py_round_zero)

text \<open>
  Claim C8 as stated ties the floor to the mathematical value \<open>1 - SS_res / SS_tot\<close>.
  The floor is applied to the computed score, and the two can differ.  For actual
  \<open>[2^-600, 0]\<close> and predicted \<open>[0, 0]\<close> the mathematical value is \<open>-1\<close>, but every
  square underflows to zero, \<open>r2_score\<close> finds numerator and denominator zero and
  returns 1.0, and the service reports \<open>1.0\<close>.
\<close>

theorem r2_underflow_counterexample:
  "0 < ss_tot [1 / 2 ^ 600, 0] \<and>
   mathematical_r2 [1 / 2 ^ 600, 0] [0, 0] = - 1 \<and>
   r2_reported [Fin (1 / 2 ^ 600), Fin 0] [Fin 0, Fin 0] = Inr (Fin 1)"
proof -
  have t: "ss_tot [1 / 2 ^ 600, 0] = 1 / 2 ^ 1201"
    by (simp add: ss_tot_def power2_eq_square)
  have r: "ss_res [1 / 2 ^ 600, 0] [0, 0] = 1 / 2 ^ 1200"
    by (simp add: ss_res_def power2_eq_square)
  have a: "0 < ss_tot [1 / 2 ^ 600, 0]" unfolding t by simp
  have m: "mathematical_r2 [1 / 2 ^ 600, 0] [0, 0] = - 1"
    unfolding mathematical_r2_def t r by simp
  have p: "py_round (Fin 1) 4 = Fin 1"
    using py_round_of_int [of 1 4] by simp
  have rep: "r2_reported [Fin (1 / 2 ^ 600), Fin 0] [Fin 0, Fin 0] = Inr (Fin 1)"
    unfolding r2_reported_def R2_VAL_def r2_score_underflow_example
    by (simp add: py_max_def p)
  show ?thesis by (intro conjI) (rule a, rule m, rule rep)
qed

subsection \<open>Feature engineering drops the warm-up rows\<close>

text \<open>
  With readings of moderate size nothing overflows: the running mean and the running sum
  of squared deviations of \<open>roll_var\<close> are the exact ones of the current window, and the
  Kahan compensations stay zero.
\<close>

lemma threshold_room: "16 * reading_bound\<^sup>2 < overflow_threshold"
  by (simp add: reading_bound_def overflow_threshold_def)

lemma reading_bound_ge_1: "1 \<le> reading_bound"
  by (simp add: reading_bound_def)

lemma fin_Fin: "\<bar>x\<bar> \<le> 16 * reading_bound\<^sup>2 \<Longrightarrow> fin x = Fin x"
  using threshold_room by (auto simp: fin_def)

lemma bound_le_room: "reading_bound \<le> reading_bound\<^sup>2"
  using reading_bound_ge_1 by (simp add: power2_eq_square)

lemma ssq_bound:
  assumes "\<bar>S1\<bar> \<le> real n * reading_bound" and "0 \<le> S2" and "S2 \<le> real n * reading_bound\<^sup>2"
  shows "\<bar>S2 - S1\<^sup>2 / real n\<bar> \<le> 2 * (real n * reading_bound\<^sup>2)"
proof (cases "n = 0")
  case True
  with assms show ?thesis by simp
next
  case False
  then have n: "0 < real n" by simp
  have "S1\<^sup>2 \<le> (real n * reading_bound)\<^sup>2"
    using assms(1) by (metis abs_le_square_iff abs_ge_zero abs_of_nonneg order_trans)
  then have "S1\<^sup>2 / real n \<le> (real n * reading_bound)\<^sup>2 / real n"
    using n by (simp add: divide_right_mono)
  also have "\<dots> = real n * reading_bound\<^sup>2"
    using n by (simp add: power2_eq_square)
  finally have a: "S1\<^sup>2 / real n \<le> real n * reading_bound\<^sup>2" .
  have b: "0 \<le> S1\<^sup>2 / real n" by simp
  from a b assms(2,3) show ?thesis by linarith
qed

lemma mean_bound:
  assumes "\<bar>S1\<bar> \<le> real n * reading_bound"
  shows "\<bar>S1 / real n\<bar> \<le> reading_bound"
proof (cases "n = 0")
  case True
  then show ?thesis using reading_bound_ge_1 by simp
next
  case False
  then have "\<bar>S1\<bar> / real n \<le> reading_bound"
    using assms by (simp add: pos_divide_le_eq mult.commute)
  then show ?thesis by simp
qed

lemma welford_identity:
  assumes "n = 0 \<longrightarrow> S1 = 0"
  shows "S2 - S1\<^sup>2 / real n + (v - S1 / real n) * (v - (S1 + v) / real (Suc n)) =
         S2 + v\<^sup>2 - (S1 + v)\<^sup>2 / real (Suc n)"
proof (cases "n = 0")
  case True
  with assms show ?thesis by (simp add: power2_eq_square)
next
  case False
  define a where "a = real n"
  define m where "m = S1 / a"
  define m' where "m' = (S1 + v) / (a + 1)"
  have a: "0 < a" using False by (simp add: a_def)
  have e1: "S1 = m * a" using a by (simp add: m_def)
  have e2: "S1 + v = m' * (a + 1)" using a by (simp add: m'_def)
  have v: "v = m' * (a + 1) - m * a" using e1 e2 by simp
  have q1: "S1\<^sup>2 / a = a * m\<^sup>2"
    using a unfolding e1 by (simp add: power2_eq_square)
  have q2: "(S1 + v)\<^sup>2 / (a + 1) = (a + 1) * m'\<^sup>2"
    using a unfolding e2 by (simp add: power2_eq_square)
  have "- (a * m\<^sup>2) + (v - m) * (v - m') = v\<^sup>2 - (a + 1) * m'\<^sup>2"
    by (subst (1 2 3) v) (simp add: algebra_simps power2_eq_square)
  then have "S2 - S1\<^sup>2 / a + (v - S1 / a) * (v - (S1 + v) / (a + 1)) =
        S2 + v\<^sup>2 - (S1 + v)\<^sup>2 / (a + 1)"
    unfolding q1 q2 m_def [symmetric] m'_def [symmetric] by simp
  then show ?thesis by (simp add: a_def add.commute)
qed

lemma sub64_Fin:
  "\<bar>a - b\<bar> \<le> 16 * reading_bound\<^sup>2 \<Longrightarrow> sub64 (Fin a) (Fin b) = Fin (a - b)"
  using fin_Fin [of "a - b"] by (simp add: sub64_def)

lemma add64_Fin:
  "\<bar>a + b\<bar> \<le> 16 * reading_bound\<^sup>2 \<Longrightarrow> add64 (Fin a) (Fin b) = Fin (a + b)"
  using fin_Fin [of "a + b"] by simp

lemma mul64_Fin:
  "\<bar>a * b\<bar> \<le> 16 * reading_bound\<^sup>2 \<Longrightarrow> mul64 (Fin a) (Fin b) = Fin (a * b)"
  using fin_Fin [of "a * b"] by simp

lemma small_in_room: "\<bar>x\<bar> \<le> 2 * reading_bound \<Longrightarrow> \<bar>x\<bar> \<le> 16 * reading_bound\<^sup>2"
  using bound_le_room by linarith

lemma widen_room: "x \<le> 4 * reading_bound\<^sup>2 \<Longrightarrow> x \<le> 16 * reading_bound\<^sup>2"
proof -
  assume "x \<le> 4 * reading_bound\<^sup>2"
  moreover have "0 \<le> reading_bound\<^sup>2" by simp
  ultimately show ?thesis by linarith
qed

lemma product_in_room:
  assumes "\<bar>a\<bar> \<le> 2 * reading_bound" "\<bar>b\<bar> \<le> 2 * reading_bound"
  shows "\<bar>a * b\<bar> \<le> 4 * reading_bound\<^sup>2"
proof -
  have "\<bar>a\<bar> * \<bar>b\<bar> \<le> (2 * reading_bound) * (2 * reading_bound)"
    using assms by (intro mult_mono) simp_all
  then show ?thesis by (simp add: abs_mult power2_eq_square)
qed

lemma square_bound: "\<bar>v\<bar> \<le> reading_bound \<Longrightarrow> v\<^sup>2 \<le> reading_bound\<^sup>2"
  using abs_le_square_iff [of v reading_bound] reading_bound_ge_1 by simp

lemma add_var_step:
  assumes st: "v_nobs st = n" "v_mean_x st = Fin (S1 / real n)"
      "v_ssqdm_x st = Fin (S2 - S1\<^sup>2 / real n)" "v_compensation_add st = Fin 0"
    and n: "n \<le> 3"
    and b: "\<bar>S1\<bar> \<le> real n * reading_bound" "0 \<le> S2" "S2 \<le> real n * reading_bound\<^sup>2"
      "\<bar>v\<bar> \<le> reading_bound"
  shows "v_nobs (add_var (Fin v) st) = Suc n"
    and "v_mean_x (add_var (Fin v) st) = Fin ((S1 + v) / real (Suc n))"
    and "v_ssqdm_x (add_var (Fin v) st) = Fin (S2 + v\<^sup>2 - (S1 + v)\<^sup>2 / real (Suc n))"
    and "v_compensation_add (add_var (Fin v) st) = Fin 0"
    and "v_compensation_remove (add_var (Fin v) st) = v_compensation_remove st"
    and "v_prev_value (add_var (Fin v) st) = Fin v"
proof -
  let ?m = "S1 / real n"
  let ?m' = "(S1 + v) / real (Suc n)"
  have z: "n = 0 \<longrightarrow> S1 = 0" using b(1) by auto
  have m: "\<bar>?m\<bar> \<le> reading_bound" by (rule mean_bound [OF b(1)])
  have b1': "\<bar>S1 + v\<bar> \<le> real (Suc n) * reading_bound"
    using b(1,4) by (simp add: algebra_simps abs_le_iff)
  have m': "\<bar>?m'\<bar> \<le> reading_bound" by (rule mean_bound [OF b1'])
  have v2: "v\<^sup>2 \<le> reading_bound\<^sup>2" by (rule square_bound [OF b(4)])
  have b2': "0 \<le> S2 + v\<^sup>2" "S2 + v\<^sup>2 \<le> real (Suc n) * reading_bound\<^sup>2"
    using b(2,3) v2 by (simp_all add: algebra_simps)
  have rb: "0 \<le> reading_bound\<^sup>2" by simp
  have prev_mean: "sub64 (Fin ?m) (Fin 0) = Fin ?m"
    using sub64_Fin [of ?m 0] small_in_room [of ?m] m reading_bound_ge_1 by simp
  have y: "sub64 (Fin v) (Fin 0) = Fin v"
    using sub64_Fin [of v 0] small_in_room [of v] b(4) reading_bound_ge_1 by simp
  have dm: "\<bar>v - ?m\<bar> \<le> 2 * reading_bound"
    using m b(4) abs_triangle_ineq4 [of v ?m] by linarith
  have dm': "\<bar>v - ?m'\<bar> \<le> 2 * reading_bound"
    using m' b(4) abs_triangle_ineq4 [of v ?m'] by linarith
  have t: "sub64 (Fin v) (Fin ?m) = Fin (v - ?m)"
    by (rule sub64_Fin [OF small_in_room [OF dm]])
  have t': "sub64 (Fin v) (Fin ?m') = Fin (v - ?m')"
    by (rule sub64_Fin [OF small_in_room [OF dm']])
  have undo: "add64 (Fin (v - ?m)) (Fin ?m) = Fin v"
    using add64_Fin [of "v - ?m" ?m] small_in_room [of v] b(4) reading_bound_ge_1 by simp
  have comp: "sub64 (Fin v) (Fin v) = Fin 0"
    using sub64_Fin [of v v] rb by simp
  have meq: "?m + (v - ?m) / real (Suc n) = ?m'"
  proof (cases "n = 0")
    case True
    with z show ?thesis by simp
  next
    case False
    define c where "c = real (Suc n)"
    have c: "c \<noteq> 0" by (simp add: c_def)
    define m where "m = S1 / real n"
    have s1: "m * real n = S1" using False by (simp add: m_def)
    have "m + (v - m) / c = (m * c + (v - m)) / c"
      using c by (simp add: add_divide_distrib)
    also have "m * c + (v - m) = m * real n + v"
      by (simp add: c_def algebra_simps)
    finally have "m + (v - m) / c = (S1 + v) / c" unfolding s1 .
    then show ?thesis unfolding m_def c_def .
  qed
  have mean: "add64 (Fin ?m) (Fin ((v - ?m) / real (Suc n))) = Fin ?m'"
    using add64_Fin [of ?m "(v - ?m) / real (Suc n)"] small_in_room [of ?m'] m'
      reading_bound_ge_1
    unfolding meq by simp
  have pr: "\<bar>(v - ?m) * (v - ?m')\<bar> \<le> 4 * reading_bound\<^sup>2"
    by (rule product_in_room [OF dm dm'])
  have "\<bar>(v - ?m) * (v - ?m')\<bar> \<le> 16 * reading_bound\<^sup>2" by (rule widen_room [OF pr])
  then have prod: "mul64 (Fin (v - ?m)) (Fin (v - ?m')) = Fin ((v - ?m) * (v - ?m'))"
    by (rule mul64_Fin)
  have idn: "S2 - S1\<^sup>2 / real n + (v - ?m) * (v - ?m') = S2 + v\<^sup>2 - (S1 + v)\<^sup>2 / real (Suc n)"
    by (rule welford_identity [OF z])
  have "\<bar>S2 + v\<^sup>2 - (S1 + v)\<^sup>2 / real (Suc n)\<bar> \<le> 2 * (real (Suc n) * reading_bound\<^sup>2)"
    by (rule ssq_bound [OF b1' b2'])
  moreover have "real (Suc n) * reading_bound\<^sup>2 \<le> 4 * reading_bound\<^sup>2"
    using n rb by (intro mult_right_mono) simp_all
  ultimately have sb: "\<bar>S2 + v\<^sup>2 - (S1 + v)\<^sup>2 / real (Suc n)\<bar> \<le> 16 * reading_bound\<^sup>2"
    by linarith
  have ssq: "add64 (Fin (S2 - S1\<^sup>2 / real n)) (Fin ((v - ?m) * (v - ?m'))) =
      Fin (S2 + v\<^sup>2 - (S1 + v)\<^sup>2 / real (Suc n))"
    using add64_Fin [of "S2 - S1\<^sup>2 / real n" "(v - ?m) * (v - ?m')"] sb
    unfolding idn by simp
  have eq: "add_var (Fin v) st =
      st\<lparr>v_nobs := Suc n,
         v_num_consecutive_same_value :=
           (if feq (Fin v) (v_prev_value st) then v_num_consecutive_same_value st + 1 else 1),
         v_prev_value := Fin v,
         v_compensation_add := Fin 0,
         v_mean_x := Fin ?m',
         v_ssqdm_x := Fin (S2 + v\<^sup>2 - (S1 + v)\<^sup>2 / real (Suc n))\<rparr>"
    by (simp only: add_var_def Let_def st isnan.simps if_False y t prev_mean undo comp
        fdiv_count.simps Suc_eq_plus1 [symmetric] mean t' prod ssq)
  show "v_nobs (add_var (Fin v) st) = Suc n" unfolding eq by simp
  show "v_mean_x (add_var (Fin v) st) = Fin ((S1 + v) / real (Suc n))" unfolding eq by simp
  show "v_ssqdm_x (add_var (Fin v) st) = Fin (S2 + v\<^sup>2 - (S1 + v)\<^sup>2 / real (Suc n))"
    unfolding eq by simp
  show "v_compensation_add (add_var (Fin v) st) = Fin 0" unfolding eq by simp
  show "v_compensation_remove (add_var (Fin v) st) = v_compensation_remove st"
    unfolding eq by simp
  show "v_prev_value (add_var (Fin v) st) = Fin v" unfolding eq by simp
qed

lemma remove_var_step:
  assumes st: "v_nobs st = Suc k" "v_mean_x st = Fin ((T1 + v) / real (Suc k))"
      "v_ssqdm_x st = Fin (T2 + v\<^sup>2 - (T1 + v)\<^sup>2 / real (Suc k))"
      "v_compensation_remove st = Fin 0"
    and k: "1 \<le> k" "k \<le> 3"
    and b: "\<bar>T1\<bar> \<le> real k * reading_bound" "0 \<le> T2" "T2 \<le> real k * reading_bound\<^sup>2"
      "\<bar>v\<bar> \<le> reading_bound"
  shows "v_nobs (remove_var (Fin v) st) = k"
    and "v_mean_x (remove_var (Fin v) st) = Fin (T1 / real k)"
    and "v_ssqdm_x (remove_var (Fin v) st) = Fin (T2 - T1\<^sup>2 / real k)"
    and "v_compensation_remove (remove_var (Fin v) st) = Fin 0"
    and "v_compensation_add (remove_var (Fin v) st) = v_compensation_add st"
    and "v_prev_value (remove_var (Fin v) st) = v_prev_value st"
proof -
  let ?m = "(T1 + v) / real (Suc k)"
  let ?m' = "T1 / real k"
  have z: "k = 0 \<longrightarrow> T1 = 0" using k by simp
  have kn: "k \<noteq> 0" using k by simp
  have b1: "\<bar>T1 + v\<bar> \<le> real (Suc k) * reading_bound"
    using b(1,4) by (simp add: algebra_simps abs_le_iff)
  have m: "\<bar>?m\<bar> \<le> reading_bound" by (rule mean_bound [OF b1])
  have m': "\<bar>?m'\<bar> \<le> reading_bound" by (rule mean_bound [OF b(1)])
  have rb: "0 \<le> reading_bound\<^sup>2" by simp
  have v2: "v\<^sup>2 \<le> reading_bound\<^sup>2" by (rule square_bound [OF b(4)])
  have b2: "0 \<le> T2 + v\<^sup>2" "T2 + v\<^sup>2 \<le> real (Suc k) * reading_bound\<^sup>2"
    using b(2,3) v2 by (simp_all add: algebra_simps)
  have prev_mean: "sub64 (Fin ?m) (Fin 0) = Fin ?m"
    using sub64_Fin [of ?m 0] small_in_room [of ?m] m reading_bound_ge_1 by simp
  have y: "sub64 (Fin v) (Fin 0) = Fin v"
    using sub64_Fin [of v 0] small_in_room [of v] b(4) reading_bound_ge_1 by simp
  have dm: "\<bar>v - ?m\<bar> \<le> 2 * reading_bound"
    using m b(4) abs_triangle_ineq4 [of v ?m] by linarith
  have dm': "\<bar>v - ?m'\<bar> \<le> 2 * reading_bound"
    using m' b(4) abs_triangle_ineq4 [of v ?m'] by linarith
  have t: "sub64 (Fin v) (Fin ?m) = Fin (v - ?m)"
    by (rule sub64_Fin [OF small_in_room [OF dm]])
  have t': "sub64 (Fin v) (Fin ?m') = Fin (v - ?m')"
    by (rule sub64_Fin [OF small_in_room [OF dm']])
  have undo: "add64 (Fin (v - ?m)) (Fin ?m) = Fin v"
    using add64_Fin [of "v - ?m" ?m] small_in_room [of v] b(4) reading_bound_ge_1 by simp
  have comp: "sub64 (Fin v) (Fin v) = Fin 0"
    using sub64_Fin [of v v] rb by simp
  have meq: "?m - (v - ?m) / real k = ?m'"
  proof -
    define c where "c = real (Suc k)"
    define m where "m = (T1 + v) / c"
    have c: "c \<noteq> 0" by (simp add: c_def)
    have k0: "real k \<noteq> 0" using kn by simp
    have s1: "m * c = T1 + v" using c by (simp add: m_def)
    have "m - (v - m) / real k = (m * real k - (v - m)) / real k"
      using k0 by (simp add: diff_divide_distrib)
    also have "m * real k - (v - m) = m * c - v"
      by (simp add: c_def algebra_simps)
    finally have "m - (v - m) / real k = T1 / real k" unfolding s1 by simp
    then show ?thesis unfolding m_def c_def .
  qed
  have "\<bar>?m - (v - ?m) / real k\<bar> \<le> 16 * reading_bound\<^sup>2"
    unfolding meq by (rule small_in_room) (use m' reading_bound_ge_1 in linarith)
  then have mean: "sub64 (Fin ?m) (Fin ((v - ?m) / real k)) = Fin ?m'"
    using sub64_Fin [of ?m "(v - ?m) / real k"] unfolding meq by simp
  have pr: "\<bar>(v - ?m) * (v - ?m')\<bar> \<le> 4 * reading_bound\<^sup>2"
    by (rule product_in_room [OF dm dm'])
  have "\<bar>(v - ?m) * (v - ?m')\<bar> \<le> 16 * reading_bound\<^sup>2" by (rule widen_room [OF pr])
  then have prod: "mul64 (Fin (v - ?m)) (Fin (v - ?m')) = Fin ((v - ?m) * (v - ?m'))"
    by (rule mul64_Fin)
  have "T2 - T1\<^sup>2 / real k + (v - ?m') * (v - ?m) = T2 + v\<^sup>2 - (T1 + v)\<^sup>2 / real (Suc k)"
    by (rule welford_identity [OF z])
  then have idn: "T2 + v\<^sup>2 - (T1 + v)\<^sup>2 / real (Suc k) - (v - ?m) * (v - ?m') = T2 - T1\<^sup>2 / real k"
    by (simp add: mult.commute)
  have "\<bar>T2 - T1\<^sup>2 / real k\<bar> \<le> 2 * (real k * reading_bound\<^sup>2)"
    by (rule ssq_bound [OF b(1,2,3)])
  moreover have "real k * reading_bound\<^sup>2 \<le> 4 * reading_bound\<^sup>2"
    using k rb by (intro mult_right_mono) simp_all
  ultimately have sb: "\<bar>T2 - T1\<^sup>2 / real k\<bar> \<le> 16 * reading_bound\<^sup>2"
    by linarith
  have ssq: "sub64 (Fin (T2 + v\<^sup>2 - (T1 + v)\<^sup>2 / real (Suc k))) (Fin ((v - ?m) * (v - ?m'))) =
      Fin (T2 - T1\<^sup>2 / real k)"
    using sub64_Fin [of "T2 + v\<^sup>2 - (T1 + v)\<^sup>2 / real (Suc k)" "(v - ?m) * (v - ?m')"] sb
    unfolding idn by simp
  have eq: "remove_var (Fin v) st =
      st\<lparr>v_nobs := k, v_compensation_remove := Fin 0, v_mean_x := Fin ?m',
         v_ssqdm_x := Fin (T2 - T1\<^sup>2 / real k)\<rparr>"
    using kn
    by (simp only: remove_var_def Let_def st isnan.simps if_False diff_Suc_1 if_True
        not_False_eq_True y t prev_mean undo comp fdiv_count.simps mean t' prod ssq)
  show "v_nobs (remove_var (Fin v) st) = k" unfolding eq by simp
  show "v_mean_x (remove_var (Fin v) st) = Fin (T1 / real k)" unfolding eq by simp
  show "v_ssqdm_x (remove_var (Fin v) st) = Fin (T2 - T1\<^sup>2 / real k)" unfolding eq by simp
  show "v_compensation_remove (remove_var (Fin v) st) = Fin 0" unfolding eq by simp
  show "v_compensation_add (remove_var (Fin v) st) = v_compensation_add st" unfolding eq by simp
  show "v_prev_value (remove_var (Fin v) st) = v_prev_value st" unfolding eq by simp
qed

lemma room_4: "\<bar>x\<bar> \<le> 4 * reading_bound \<Longrightarrow> \<bar>x\<bar> \<le> 16 * reading_bound\<^sup>2"
  using bound_le_room by linarith

lemma add_mean_step:
  assumes st: "m_nobs st = n" "m_sum_x st = Fin S1" "m_compensation_add st = Fin 0"
    and n: "n \<le> 3"
    and b: "\<bar>S1\<bar> \<le> real n * reading_bound" "\<bar>v\<bar> \<le> reading_bound"
  shows "m_nobs (add_mean (Fin v) st) = Suc n"
    and "m_sum_x (add_mean (Fin v) st) = Fin (S1 + v)"
    and "m_compensation_add (add_mean (Fin v) st) = Fin 0"
    and "m_compensation_remove (add_mean (Fin v) st) = m_compensation_remove st"
    and "m_prev_value (add_mean (Fin v) st) = Fin v"
proof -
  have rb: "0 \<le> reading_bound" using reading_bound_ge_1 by linarith
  have "real n * reading_bound \<le> 3 * reading_bound"
    using n rb by (intro mult_right_mono) simp_all
  with b have s: "\<bar>S1\<bar> \<le> 3 * reading_bound" by linarith
  have y: "sub64 (Fin v) (Fin 0) = Fin v"
    using sub64_Fin [of v 0] room_4 [of v] b(2) rb by simp
  have "\<bar>S1 + v\<bar> \<le> 4 * reading_bound" using s b(2) by linarith
  then have t: "add64 (Fin S1) (Fin v) = Fin (S1 + v)"
    by (intro add64_Fin room_4)
  have u: "sub64 (Fin (S1 + v)) (Fin S1) = Fin v"
    using sub64_Fin [of "S1 + v" S1] room_4 [of v] b(2) rb by simp
  have comp: "sub64 (Fin v) (Fin v) = Fin 0"
    using sub64_Fin [of v v] by simp
  have eq: "add_mean (Fin v) st =
      st\<lparr>m_nobs := Suc n, m_compensation_add := Fin 0, m_sum_x := Fin (S1 + v),
         m_neg_ct := (if flt (Fin v) (Fin 0) then m_neg_ct st + 1 else m_neg_ct st),
         m_num_consecutive_same_value :=
           (if feq (Fin v) (m_prev_value st) then m_num_consecutive_same_value st + 1 else 1),
         m_prev_value := Fin v\<rparr>"
    by (simp only: add_mean_def Let_def st isnan.simps if_False y t u comp
        Suc_eq_plus1 [symmetric])
  show "m_nobs (add_mean (Fin v) st) = Suc n" unfolding eq by simp
  show "m_sum_x (add_mean (Fin v) st) = Fin (S1 + v)" unfolding eq by simp
  show "m_compensation_add (add_mean (Fin v) st) = Fin 0" unfolding eq by simp
  show "m_compensation_remove (add_mean (Fin v) st) = m_compensation_remove st"
    unfolding eq by simp
  show "m_prev_value (add_mean (Fin v) st) = Fin v" unfolding eq by simp
qed

lemma remove_mean_step:
  assumes st: "m_nobs st = Suc k" "m_sum_x st = Fin (T1 + v)" "m_compensation_remove st = Fin 0"
    and k: "k \<le> 3"
    and b: "\<bar>T1\<bar> \<le> real k * reading_bound" "\<bar>v\<bar> \<le> reading_bound"
  shows "m_nobs (remove_mean (Fin v) st) = k"
    and "m_sum_x (remove_mean (Fin v) st) = Fin T1"
    and "m_compensation_remove (remove_mean (Fin v) st) = Fin 0"
    and "m_compensation_add (remove_mean (Fin v) st) = m_compensation_add st"
    and "m_prev_value (remove_mean (Fin v) st) = m_prev_value st"
proof -
  have rb: "0 \<le> reading_bound" using reading_bound_ge_1 by linarith
  have "real k * reading_bound \<le> 3 * reading_bound"
    using k rb by (intro mult_right_mono) simp_all
  with b have s: "\<bar>T1\<bar> \<le> 3 * reading_bound" by linarith
  have y: "sub64 (fneg (Fin v)) (Fin 0) = Fin (- v)"
    using sub64_Fin [of "- v" 0] room_4 [of "- v"] b(2) rb by simp
  have t: "add64 (Fin (T1 + v)) (Fin (- v)) = Fin T1"
    using add64_Fin [of "T1 + v" "- v"] room_4 [of T1] s rb by simp
  have u: "sub64 (Fin T1) (Fin (T1 + v)) = Fin (- v)"
    using sub64_Fin [of T1 "T1 + v"] room_4 [of "- v"] b(2) rb by simp
  have comp: "sub64 (Fin (- v)) (Fin (- v)) = Fin 0"
    using sub64_Fin [of "- v" "- v"] by simp
  have eq: "remove_mean (Fin v) st =
      st\<lparr>m_nobs := k, m_compensation_remove := Fin 0, m_sum_x := Fin T1,
         m_neg_ct := (if flt (Fin v) (Fin 0) then m_neg_ct st - 1 else m_neg_ct st)\<rparr>"
    by (simp only: remove_mean_def Let_def st isnan.simps if_False y t u comp diff_Suc_1)
  show "m_nobs (remove_mean (Fin v) st) = k" unfolding eq by simp
  show "m_sum_x (remove_mean (Fin v) st) = Fin T1" unfolding eq by simp
  show "m_compensation_remove (remove_mean (Fin v) st) = Fin 0" unfolding eq by simp
  show "m_compensation_add (remove_mean (Fin v) st) = m_compensation_add st"
    unfolding eq by simp
  show "m_prev_value (remove_mean (Fin v) st) = m_prev_value st" unfolding eq by simp
qed

lemma wsum_bounds:
  assumes "\<forall>x \<in> set xs. \<bar>x\<bar> \<le> reading_bound" "\<forall>j \<in> set js. j < length xs"
  shows "\<bar>wsum1 xs js\<bar> \<le> real (length js) * reading_bound"
    and "0 \<le> wsum2 xs js"
    and "wsum2 xs js \<le> real (length js) * reading_bound\<^sup>2"
  using assms(2)
proof (induction js)
  case Nil
  {
    case 1 show ?case by (simp add: wsum1_def)
  next
    case 2 show ?case by (simp add: wsum2_def)
  next
    case 3 show ?case by (simp add: wsum2_def)
  }
next
  case (Cons j js)
  {
    case 1
    then have a: "\<bar>xs ! j\<bar> \<le> reading_bound" using assms(1) by simp
    from 1 have "\<bar>wsum1 xs js\<bar> \<le> real (length js) * reading_bound"
      using Cons.IH(1) by simp
    with a show ?case by (simp add: wsum1_def algebra_simps abs_le_iff)
  next
    case 2
    then have "0 \<le> wsum2 xs js" using Cons.IH(2) by simp
    then show ?case by (simp add: wsum2_def)
  next
    case 3
    then have "\<bar>xs ! j\<bar> \<le> reading_bound" using assms(1) by simp
    then have a: "(xs ! j)\<^sup>2 \<le> reading_bound\<^sup>2" by (rule square_bound)
    from 3 have "wsum2 xs js \<le> real (length js) * reading_bound\<^sup>2"
      using Cons.IH(3) by simp
    with a show ?case by (simp add: wsum2_def algebra_simps)
  }
qed

lemma wsum_snoc:
  "wsum1 xs (js @ [j]) = wsum1 xs js + xs ! j"
  "wsum2 xs (js @ [j]) = wsum2 xs js + (xs ! j)\<^sup>2"
  by (simp_all add: wsum1_def wsum2_def)

lemma wsum_Cons:
  "wsum1 xs (j # js) = wsum1 xs js + xs ! j"
  "wsum2 xs (j # js) = wsum2 xs js + (xs ! j)\<^sup>2"
  by (simp_all add: wsum1_def wsum2_def)

lemma var_scan_inv:
  assumes bnd: "\<forall>x \<in> set xs. \<bar>x\<bar> \<le> reading_bound" and i: "i < length xs"
  shows "v_nobs (var_scan (map Fin xs) i) = length [i - 3..<Suc i] \<and>
         v_mean_x (var_scan (map Fin xs) i) =
           Fin (wsum1 xs [i - 3..<Suc i] / real (length [i - 3..<Suc i])) \<and>
         v_ssqdm_x (var_scan (map Fin xs) i) =
           Fin (wsum2 xs [i - 3..<Suc i] -
                (wsum1 xs [i - 3..<Suc i])\<^sup>2 / real (length [i - 3..<Suc i])) \<and>
         v_compensation_add (var_scan (map Fin xs) i) = Fin 0 \<and>
         v_compensation_remove (var_scan (map Fin xs) i) = Fin 0"
  using i
proof (induction i)
  case 0
  let ?st = "\<lparr>v_nobs = 0, v_mean_x = Fin 0, v_ssqdm_x = Fin 0, v_compensation_add = Fin 0,
        v_compensation_remove = Fin 0, v_num_consecutive_same_value = 0,
        v_prev_value = Fin (xs ! 0)\<rparr>"
  have v: "\<bar>xs ! 0\<bar> \<le> reading_bound" using bnd 0 by simp
  note s = add_var_step [of ?st 0 0 0 "xs ! 0", simplified, OF v]
  have w: "[0 - 3..<Suc 0] = [0]" by simp
  show ?case
    unfolding w using 0 s by (simp add: wsum1_def wsum2_def)
next
  case (Suc i)
  then have i: "i < length xs" by simp
  note IH = Suc.IH [OF i]
  have v: "\<bar>xs ! Suc i\<bar> \<le> reading_bound" using bnd Suc.prems by simp
  show ?case
  proof (cases "4 \<le> Suc i")
    case False
    then have lo: "i - 3 = 0" "Suc i - 3 = 0" by simp_all
    let ?js = "[0..<Suc i]"
    have js: "\<forall>j \<in> set ?js. j < length xs" using i by simp
    have n: "length ?js \<le> 3" using False by simp
    have w: "[Suc i - 3..<Suc (Suc i)] = ?js @ [Suc i]" unfolding lo by simp
    have len: "length (?js @ [Suc i]) = Suc (length ?js)" by simp
    note s = add_var_step [of "var_scan (map Fin xs) i" "length ?js" "wsum1 xs ?js" "wsum2 xs ?js"
        "xs ! Suc i", OF _ _ _ _ n wsum_bounds [OF bnd js] v]
    have st: "var_scan (map Fin xs) (Suc i) = add_var (Fin (xs ! Suc i)) (var_scan (map Fin xs) i)"
      using False Suc.prems by simp
    show ?thesis
      unfolding st w len wsum_snoc
      using IH s unfolding lo by simp
  next
    case True
    then have i3: "3 \<le> i" by simp
    let ?ks = "[i - 2..<Suc i]"
    have e0: "Suc (i - 3) = i - 2" and e1: "Suc i - 3 = i - 2" using i3 by simp_all
    have "[i - 3..<Suc i] = (i - 3) # [Suc (i - 3)..<Suc i]"
      by (rule upt_conv_Cons) simp
    then have w0: "[i - 3..<Suc i] = (i - 3) # ?ks" unfolding e0 .
    have "[i - 2..<Suc (Suc i)] = ?ks @ [Suc i]" by simp
    then have w1: "[Suc i - 3..<Suc (Suc i)] = ?ks @ [Suc i]" unfolding e1 .
    have lk: "length ?ks = 3" using i3 by simp
    have ks: "\<forall>j \<in> set ?ks. j < length xs" using i by simp
    have u: "\<bar>xs ! (i - 3)\<bar> \<le> reading_bound" using bnd i by simp
    have k13: "1 \<le> length ?ks" "length ?ks \<le> 3" using lk by simp_all
    let ?st = "var_scan (map Fin xs) i"
    let ?st' = "remove_var (Fin (xs ! (i - 3))) ?st"
    have l4: "length ((i - 3) # ?ks) = Suc (length ?ks)" by simp
    note r = remove_var_step [of ?st "length ?ks" "wsum1 xs ?ks" "xs ! (i - 3)" "wsum2 xs ?ks",
        OF _ _ _ _ k13 wsum_bounds [OF bnd ks] u]
    have IH': "v_nobs ?st = Suc (length ?ks)"
      "v_mean_x ?st = Fin ((wsum1 xs ?ks + xs ! (i - 3)) / real (Suc (length ?ks)))"
      "v_ssqdm_x ?st = Fin (wsum2 xs ?ks + (xs ! (i - 3))\<^sup>2 -
          (wsum1 xs ?ks + xs ! (i - 3))\<^sup>2 / real (Suc (length ?ks)))"
      "v_compensation_add ?st = Fin 0" "v_compensation_remove ?st = Fin 0"
      using IH unfolding w0 l4 wsum_Cons by simp_all
    note r' = r [OF IH'(1,2,3,5)]
    have ca: "v_compensation_add ?st' = Fin 0" using r'(5) IH'(4) by simp
    note s = add_var_step [of ?st' "length ?ks" "wsum1 xs ?ks" "wsum2 xs ?ks" "xs ! Suc i",
        OF r'(1,2,3) ca k13(2) wsum_bounds [OF bnd ks] v]
    have st: "var_scan (map Fin xs) (Suc i) = add_var (Fin (xs ! Suc i)) ?st'"
      using True Suc.prems i by simp
    have len: "length (?ks @ [Suc i]) = Suc (length ?ks)" by simp
    show ?thesis
      unfolding st w1 len wsum_snoc
      using s r'(4) by simp
  qed
qed

lemma mean_scan_inv:
  assumes bnd: "\<forall>x \<in> set xs. \<bar>x\<bar> \<le> reading_bound" and i: "i < length xs"
  shows "m_nobs (mean_scan (map Fin xs) i) = length [i - 3..<Suc i] \<and>
         m_sum_x (mean_scan (map Fin xs) i) = Fin (wsum1 xs [i - 3..<Suc i]) \<and>
         m_compensation_add (mean_scan (map Fin xs) i) = Fin 0 \<and>
         m_compensation_remove (mean_scan (map Fin xs) i) = Fin 0 \<and>
         m_prev_value (mean_scan (map Fin xs) i) = Fin (xs ! i)"
  using i
proof (induction i)
  case 0
  let ?st = "\<lparr>m_nobs = 0, m_sum_x = Fin 0, m_neg_ct = 0, m_compensation_add = Fin 0,
        m_compensation_remove = Fin 0, m_num_consecutive_same_value = 0,
        m_prev_value = Fin (xs ! 0)\<rparr>"
  have v: "\<bar>xs ! 0\<bar> \<le> reading_bound" using bnd 0 by simp
  note s = add_mean_step [of ?st 0 0 "xs ! 0", simplified, OF v]
  have w: "[0 - 3..<Suc 0] = [0]" by simp
  show ?case
    unfolding w using 0 s by (simp add: wsum1_def)
next
  case (Suc i)
  then have i: "i < length xs" by simp
  note IH = Suc.IH [OF i]
  have v: "\<bar>xs ! Suc i\<bar> \<le> reading_bound" using bnd Suc.prems by simp
  show ?case
  proof (cases "4 \<le> Suc i")
    case False
    then have lo: "i - 3 = 0" "Suc i - 3 = 0" by simp_all
    let ?js = "[0..<Suc i]"
    have js: "\<forall>j \<in> set ?js. j < length xs" using i by simp
    have n: "length ?js \<le> 3" using False by simp
    have w: "[Suc i - 3..<Suc (Suc i)] = ?js @ [Suc i]" unfolding lo by simp
    have len: "length (?js @ [Suc i]) = Suc (length ?js)" by simp
    note s = add_mean_step [of "mean_scan (map Fin xs) i" "length ?js" "wsum1 xs ?js"
        "xs ! Suc i", OF _ _ _ n wsum_bounds(1) [OF bnd js] v]
    have st: "mean_scan (map Fin xs) (Suc i) =
        add_mean (Fin (xs ! Suc i)) (mean_scan (map Fin xs) i)"
      using False Suc.prems by simp
    show ?thesis
      unfolding st w len wsum_snoc
      using IH s unfolding lo by simp
  next
    case True
    then have i3: "3 \<le> i" by simp
    let ?ks = "[i - 2..<Suc i]"
    have e0: "Suc (i - 3) = i - 2" and e1: "Suc i - 3 = i - 2" using i3 by simp_all
    have "[i - 3..<Suc i] = (i - 3) # [Suc (i - 3)..<Suc i]"
      by (rule upt_conv_Cons) simp
    then have w0: "[i - 3..<Suc i] = (i - 3) # ?ks" unfolding e0 .
    have "[i - 2..<Suc (Suc i)] = ?ks @ [Suc i]" by simp
    then have w1: "[Suc i - 3..<Suc (Suc i)] = ?ks @ [Suc i]" unfolding e1 .
    have lk: "length ?ks = 3" using i3 by simp
    have ks: "\<forall>j \<in> set ?ks. j < length xs" using i by simp
    have u: "\<bar>xs ! (i - 3)\<bar> \<le> reading_bound" using bnd i by simp
    have k3: "length ?ks \<le> 3" using lk by simp
    let ?st = "mean_scan (map Fin xs) i"
    let ?st' = "remove_mean (Fin (xs ! (i - 3))) ?st"
    have l4: "length ((i - 3) # ?ks) = Suc (length ?ks)" by simp
    have IH': "m_nobs ?st = Suc (length ?ks)"
      "m_sum_x ?st = Fin (wsum1 xs ?ks + xs ! (i - 3))"
      "m_compensation_add ?st = Fin 0" "m_compensation_remove ?st = Fin 0"
      using IH unfolding w0 l4 wsum_Cons by simp_all
    note r = remove_mean_step [of ?st "length ?ks" "wsum1 xs ?ks" "xs ! (i - 3)",
        OF IH'(1,2,4) k3 wsum_bounds(1) [OF bnd ks] u]
    have ca: "m_compensation_add ?st' = Fin 0" using r(4) IH'(3) by simp
    note s = add_mean_step [of ?st' "length ?ks" "wsum1 xs ?ks" "xs ! Suc i",
        OF r(1,2) ca k3 wsum_bounds(1) [OF bnd ks] v]
    have st: "mean_scan (map Fin xs) (Suc i) = add_mean (Fin (xs ! Suc i)) ?st'"
      using True Suc.prems i by simp
    have len: "length (?ks @ [Suc i]) = Suc (length ?ks)" by simp
    show ?thesis
      unfolding st w1 len wsum_snoc
      using s r(3) by simp
  qed
qed

lemma roll_std_finite:
  assumes bnd: "\<forall>x \<in> set xs. \<bar>x\<bar> \<le> reading_bound" and i: "i < length xs" "3 \<le> i"
  shows "\<not> isnan (roll_std (map Fin xs) ! i)"
proof -
  have l: "length [i - 3..<Suc i] = 4" using i(2) by simp
  note inv = var_scan_inv [OF bnd i(1), unfolded l]
  have "\<not> isnan (zsqrt (calc_var 4 1 (var_scan (map Fin xs) i)))"
    using inv by (simp add: calc_var_def)
  then show ?thesis
    using i(1) by (simp add: roll_std_def roll_var_def)
qed

lemma roll_mean_finite:
  assumes bnd: "\<forall>x \<in> set xs. \<bar>x\<bar> \<le> reading_bound" and i: "i < length xs" "3 \<le> i"
  shows "\<not> isnan (roll_mean (map Fin xs) ! i)"
proof -
  have l: "length [i - 3..<Suc i] = 4" using i(2) by simp
  note inv = mean_scan_inv [OF bnd i(1), unfolded l]
  have "\<not> isnan (calc_mean 4 (mean_scan (map Fin xs) i))"
    using inv by (simp add: calc_mean_def Let_def)
  then show ?thesis
    using i(1) by (simp add: roll_mean_def)
qed

lemma shift_nth: "i < length col \<Longrightarrow> shift k col ! i = (if i < k then NaN else col ! (i - k))"
  by (auto simp: shift_def nth_append min_def)

lemma rolling4_nth:
  "i < length col \<Longrightarrow> rolling4 agg col ! i =
     (if i < 3 then NaN
      else if list_ex isnan (take 4 (drop (i - 3) col)) then NaN
      else agg (take 4 (drop (i - 3) col)))"
  by (simp add: rolling4_def Let_def)

lemma foldl_py_max_Fin: "\<exists>m. foldl py_max (Fin a) (map Fin xs) = Fin m"
  by (induction xs arbitrary: a) (simp_all add: py_max_def)

lemma fmax_Fin: "xs \<noteq> [] \<Longrightarrow> \<exists>m. fmax (map Fin xs) = Fin m"
  by (cases xs) (simp_all add: fmax_def foldl_py_max_Fin)

lemma isnan_Fin_list: "\<not> list_ex isnan (map Fin xs)"
  by (induction xs) simp_all

lemma roll_max_finite:
  assumes "i < length xs" "3 \<le> i"
  shows "\<not> isnan (rolling4 fmax (map Fin xs) ! i)"
proof -
  let ?w = "take 4 (drop (i - 3) xs)"
  have w: "take 4 (drop (i - 3) (map Fin xs)) = map Fin ?w"
    by (simp add: take_map drop_map)
  have "?w \<noteq> []" using assms by simp
  then obtain m where "fmax (map Fin ?w) = Fin m" using fmax_Fin by blast
  then show ?thesis
    using assms by (simp add: rolling4_nth w isnan_Fin_list)
qed

lemma moderate_column:
  assumes "\<forall>r \<in> set df. moderate_power r"
  shows "\<exists>xs. map Power_Consumption df = map Fin xs \<and> (\<forall>x \<in> set xs. \<bar>x\<bar> \<le> reading_bound)"
  using assms
proof (induction df)
  case Nil
  then show ?case by simp
next
  case (Cons r df)
  then obtain xs where xs: "map Power_Consumption df = map Fin xs"
    "\<forall>x \<in> set xs. \<bar>x\<bar> \<le> reading_bound" by auto
  from Cons.prems obtain x where x: "Power_Consumption r = Fin x" "\<bar>x\<bar> \<le> reading_bound"
    by (cases "Power_Consumption r") (auto simp: moderate_power_def)
  have "map Power_Consumption (r # df) = map Fin (x # xs)" using x xs by simp
  moreover have "\<forall>y \<in> set (x # xs). \<bar>y\<bar> \<le> reading_bound" using x xs by simp
  ultimately show ?case by blast
qed

lemma length_add_features: "length (add_features df) = length df"
  by (simp add: add_features_def Let_def)

lemma add_features_nth:
  assumes "i < length df"
  shows "reading.truncate (add_features df ! i) = df ! i"
    and "power_lag_1 (add_features df ! i) = shift 1 (map Power_Consumption df) ! i"
    and "power_lag_2 (add_features df ! i) = shift 2 (map Power_Consumption df) ! i"
    and "power_lag_4 (add_features df ! i) = shift 4 (map Power_Consumption df) ! i"
    and "power_roll_mean_1h (add_features df ! i) = roll_mean (map Power_Consumption df) ! i"
    and "power_roll_std_1h (add_features df ! i) = roll_std (map Power_Consumption df) ! i"
    and "power_roll_max_1h (add_features df ! i) = rolling4 fmax (map Power_Consumption df) ! i"
    and "Voltage (add_features df ! i) = Voltage (df ! i)"
    and "Current (add_features df ! i) = Current (df ! i)"
    and "Reactive_Power (add_features df ! i) = Reactive_Power (df ! i)"
    and "Power_Factor (add_features df ! i) = Power_Factor (df ! i)"
    and "Power_Consumption (add_features df ! i) = Power_Consumption (df ! i)"
    and "other_columns (add_features df ! i) = other_columns (df ! i)"
  using assms by (simp_all add: add_features_def Let_def reading.truncate_def)

lemma warm_up_has_nan:
  assumes "i < length df" "i < 4"
  shows "has_nan (add_features df ! i)"
proof -
  have "isnan (power_lag_4 (add_features df ! i))"
    using assms by (simp add: add_features_nth shift_nth)
  then show ?thesis by (simp add: has_nan_def)
qed

lemma has_nan_add_features:
  assumes "\<forall>r \<in> set df. no_missing_values r \<and> moderate_power r" "i < length df"
  shows "has_nan (add_features df ! i) \<longleftrightarrow> i < 4"
proof (cases "i < 4")
  case True
  then show ?thesis using warm_up_has_nan [OF assms(2)] by simp
next
  case False
  from assms(1) obtain xs where xs: "map Power_Consumption df = map Fin xs"
    and bnd: "\<forall>x \<in> set xs. \<bar>x\<bar> \<le> reading_bound"
    using moderate_column [of df] by auto
  have len: "length xs = length df" using xs by (metis length_map)
  have i: "i < length xs" "3 \<le> i" using assms(2) False len by simp_all
  have c: "no_missing_values (df ! i)" using assms by simp
  have lag: "\<And>k. \<not> isnan (map Fin xs ! (i - k))" using i(1) by simp
  have "\<not> has_nan (add_features df ! i)"
    using False assms(2) c lag [of 1] lag [of 2] lag [of 4]
      roll_mean_finite [OF bnd i] roll_std_finite [OF bnd i] roll_max_finite [OF i]
    by (simp add: has_nan_def add_features_nth shift_nth xs len no_missing_values_def)
  with False show ?thesis by simp
qed

lemma filter_map_upt_ge:
  "filter (\<lambda>i. k \<le> i) [0..<n] = [k..<n]"
  by (induction n) auto

lemma filter_by_index:
  "filter P xs = map ((!) xs) (filter (\<lambda>i. P (xs ! i)) [0..<length xs])"
proof -
  have "filter P (map ((!) xs) [0..<length xs]) = map ((!) xs) (filter (P \<circ> (!) xs) [0..<length xs])"
    by (rule filter_map)
  then show ?thesis by (simp add: map_nth comp_def)
qed

lemma dropna_add_features:
  assumes "\<forall>r \<in> set df. no_missing_values r \<and> moderate_power r"
  shows "engineer df = drop 4 (add_features df)"
proof -
  let ?f = "add_features df"
  have "dropna ?f = map ((!) ?f) (filter (\<lambda>i. \<not> has_nan (?f ! i)) [0..<length ?f])"
    unfolding dropna_def by (rule filter_by_index)
  also have "filter (\<lambda>i. \<not> has_nan (?f ! i)) [0..<length ?f] = filter (\<lambda>i. 4 \<le> i) [0..<length ?f]"
    using has_nan_add_features [OF assms]
    by (intro filter_cong) (auto simp: length_add_features not_less)
  also have "\<dots> = [4..<length ?f]" by (rule filter_map_upt_ge)
  also have "map ((!) ?f) [4..<length ?f] = drop 4 (map ((!) ?f) [0..<length ?f])"
    by (simp add: drop_map)
  also have "\<dots> = drop 4 ?f" by (simp add: map_nth)
  finally show ?thesis by (simp add: engineer_def)
qed

text \<open>
  Claim C7, as the code has it.  For a frame of at least five rows in which no cell is
  NaN and every power reading is a finite number of magnitude at most \<open>10^150\<close>,
  \<open>dropna\<close> removes exactly the first four rows of the frame with the engineered
  columns.  What is left has four rows fewer than the raw frame, and its raw columns are
  rows \<open>4, 5, \<dots>\<close> of the raw frame in their order.
\<close>

theorem engineer_drops_warm_up:
  assumes "\<forall>r \<in> set df. no_missing_values r \<and> moderate_power r" and "5 \<le> length df"
  shows "engineer df = drop 4 (add_features df) \<and>
         length (engineer df) = length df - 4 \<and>
         map reading.truncate (engineer df) = drop 4 df"
proof -
  have e: "engineer df = drop 4 (add_features df)" by (rule dropna_add_features [OF assms(1)])
  have "map reading.truncate (add_features df) = df"
    by (rule nth_equalityI) (simp_all add: length_add_features add_features_nth)
  moreover have "map reading.truncate (drop 4 (add_features df)) = drop 4 (map reading.truncate (add_features df))"
    by (simp add: drop_map)
  ultimately have "map reading.truncate (drop 4 (add_features df)) = drop 4 df"
    by simp
  with e show ?thesis by (simp add: length_add_features)
qed

theorem engineer_drops_warm_up_witness:
  "list_all (\<lambda>r. no_missing_values r \<and> moderate_power r)
     (map sample_reading [Fin 1, Fin 2, Fin 3, Fin 4, Fin 5, Fin 6]) \<and>
   5 \<le> length (map sample_reading [Fin 1, Fin 2, Fin 3, Fin 4, Fin 5, Fin 6]) \<and>
   length (engineer (map sample_reading [Fin 1, Fin 2, Fin 3, Fin 4, Fin 5, Fin 6])) = 2 \<and>
   map reading.truncate (engineer (map sample_reading [Fin 1, Fin 2, Fin 3, Fin 4, Fin 5, Fin 6])) =
     [sample_reading (Fin 5), sample_reading (Fin 6)]"
proof -
  let ?df = "map sample_reading [Fin 1, Fin 2, Fin 3, Fin 4, Fin 5, Fin 6]"
  have c: "\<forall>r \<in> set ?df. no_missing_values r \<and> moderate_power r"
    by (simp add: no_missing_values_def moderate_power_def sample_reading_def reading_bound_def)
  have l: "5 \<le> length ?df" by simp
  note t = engineer_drops_warm_up [OF c l]
  have "length (engineer ?df) = 2"
    using t [THEN conjunct2, THEN conjunct1] by simp
  moreover have "map reading.truncate (engineer ?df) =
      [sample_reading (Fin 5), sample_reading (Fin 6)]"
    using t [THEN conjunct2, THEN conjunct2] by simp
  ultimately show ?thesis using c by (simp add: list_all_iff)
qed

text \<open>Two frames on which \<open>dropna\<close> removes a row beyond the first four.\<close>

lemmas var_eval = add_var_def remove_var_def Let_def sub64_def fin_def overflow_threshold_def
  feq_def

lemma nth_of_take_eq:
  assumes "take n vs = take n ws" "j < n"
  shows "vs ! j = ws ! j"
  using assms by (metis nth_take)

lemma var_scan_prefix:
  assumes "\<forall>j \<le> i. vs ! j = ws ! j"
  shows "var_scan vs i = var_scan ws i"
  using assms by (induction i) simp_all

lemma mean_scan_prefix:
  assumes "\<forall>j \<le> i. vs ! j = ws ! j"
  shows "mean_scan vs i = mean_scan ws i"
  using assms by (induction i) simp_all

lemma var_scan_cong:
  assumes "take (Suc i) vs = take (Suc i) ws"
  shows "var_scan vs i = var_scan ws i"
  using nth_of_take_eq [OF assms] by (intro var_scan_prefix) simp

lemma mean_scan_cong:
  assumes "take (Suc i) vs = take (Suc i) ws"
  shows "mean_scan vs i = mean_scan ws i"
  using nth_of_take_eq [OF assms] by (intro mean_scan_prefix) simp

lemma mul64_NaN_right: "mul64 a NaN = NaN"
  by (cases a) simp_all

lemma add64_NaN_right: "add64 a NaN = NaN"
  by (cases a) simp_all

lemma add_var_PInf:
  assumes "v_mean_x st = Fin m" "v_compensation_add st = Fin c" "v_prev_value st \<noteq> PInf"
  shows "v_ssqdm_x (add_var PInf st) = NaN"
    and "v_nobs (add_var PInf st) = Suc (v_nobs st)"
    and "v_num_consecutive_same_value (add_var PInf st) = 1"
  using assms
  by (simp_all add: add_var_def Let_def sub64_def feq_def mul64_NaN_right add64_NaN_right)

lemma var_scan_prev:
  "\<not> isnan (vs ! i) \<Longrightarrow> v_prev_value (var_scan vs i) = vs ! i"
  by (cases i) (simp_all add: add_var_def Let_def)

lemma var_scan_Suc:
  "var_scan vs (Suc i) =
     add_var (vs ! Suc i)
       (if 4 \<le> Suc i then remove_var (vs ! (Suc i - 4)) (var_scan vs i) else var_scan vs i)"
  by simp

lemma roll_std_nth:
  "i < length vs \<Longrightarrow> roll_std vs ! i = zsqrt (calc_var 4 1 (var_scan vs i))"
  by (simp add: roll_std_def roll_var_def)

lemma roll_mean_nth:
  "i < length vs \<Longrightarrow> roll_mean vs ! i = calc_mean 4 (mean_scan vs i)"
  by (simp add: roll_mean_def)

lemma infinite_reading_std: "roll_std [Fin 1, Fin 2, Fin 3, Fin 4, Fin 5, PInf] ! 5 = NaN"
proof -
  let ?P = "[Fin 1, Fin 2, Fin 3, Fin 4, Fin 5, PInf]"
  let ?xs = "[1, 2, 3, 4, 5, 0] :: real list"
  have bnd: "\<forall>x \<in> set ?xs. \<bar>x\<bar> \<le> reading_bound" by (simp add: reading_bound_def)
  have pre: "var_scan ?P 4 = var_scan (map Fin ?xs) 4"
    by (rule var_scan_cong) (simp add: eval_nat_numeral)
  let ?st = "var_scan (map Fin ?xs) 4"
  have w: "[4 - 3..<Suc 4] = [1, 2, 3, 4]" by (simp add: upt_rec)
  have inv: "v_nobs ?st = 4" "v_mean_x ?st = Fin (14 / 4)" "v_ssqdm_x ?st = Fin (54 - 14\<^sup>2 / 4)"
    "v_compensation_add ?st = Fin 0" "v_compensation_remove ?st = Fin 0"
    using var_scan_inv [OF bnd, of 4] unfolding w by (simp_all add: wsum1_def wsum2_def)
  have prev: "v_prev_value ?st = Fin 5"
    using var_scan_prev [of "map Fin ?xs" 4] by simp
  let ?st' = "remove_var (Fin 2) ?st"
  have r: "v_nobs ?st' = 3" "v_mean_x ?st' = Fin (12 / real 3)"
    "v_compensation_add ?st' = v_compensation_add ?st" "v_prev_value ?st' = v_prev_value ?st"
    using remove_var_step(1,2,5,6) [of ?st 3 12 2 50] inv
    by (simp_all add: reading_bound_def)
  have a: "v_ssqdm_x (add_var PInf ?st') = NaN" "v_nobs (add_var PInf ?st') = 4"
    "v_num_consecutive_same_value (add_var PInf ?st') = 1"
    using add_var_PInf [of ?st' "12 / real 3" 0] r inv prev by simp_all
  have "var_scan ?P 5 = add_var PInf (remove_var (Fin 2) (var_scan ?P 4))"
    using var_scan_Suc [of ?P 4] by simp
  then have cv: "calc_var 4 1 (var_scan ?P 5) = NaN"
    using a by (simp add: pre calc_var_def)
  have n: "roll_std ?P ! 5 = zsqrt (calc_var 4 1 (var_scan ?P 5))"
    by (rule roll_std_nth) simp
  show ?thesis unfolding n cv by simp
qed

lemma power_of_samples: "map Power_Consumption (map sample_reading vs) = vs"
  by (induction vs) (simp_all add: sample_reading_def)

lemma infinite_reading_row_4: "\<not> has_nan (add_features infinite_reading_frame ! 4)"
proof -
  let ?P = "[Fin 1, Fin 2, Fin 3, Fin 4, Fin 5, PInf]"
  let ?xs = "[1, 2, 3, 4, 5, 0] :: real list"
  have bnd: "\<forall>x \<in> set ?xs. \<bar>x\<bar> \<le> reading_bound" by (simp add: reading_bound_def)
  have p: "map Power_Consumption infinite_reading_frame = ?P"
    unfolding infinite_reading_frame_def by (rule power_of_samples)
  have "var_scan ?P 4 = var_scan (map Fin ?xs) 4"
    by (rule var_scan_cong) (simp add: eval_nat_numeral)
  then have "roll_std ?P ! 4 = roll_std (map Fin ?xs) ! 4"
    by (simp add: roll_std_nth del: var_scan.simps)
  then have s: "\<not> isnan (roll_std ?P ! 4)"
    using roll_std_finite [OF bnd, of 4] by simp
  have "mean_scan ?P 4 = mean_scan (map Fin ?xs) 4"
    by (rule mean_scan_cong) (simp add: eval_nat_numeral)
  then have "roll_mean ?P ! 4 = roll_mean (map Fin ?xs) ! 4"
    by (simp add: roll_mean_nth del: mean_scan.simps)
  then have m: "\<not> isnan (roll_mean ?P ! 4)"
    using roll_mean_finite [OF bnd, of 4] by simp
  have x: "\<not> isnan (rolling4 fmax ?P ! 4)"
    by (simp add: rolling4_nth fmax_def py_max_def)
  have l: "4 < length infinite_reading_frame" by (simp add: infinite_reading_frame_def)
  have raw: "infinite_reading_frame ! 4 = sample_reading (Fin 5)"
    by (simp add: infinite_reading_frame_def)
  show ?thesis
    using s m x
    by (simp add: has_nan_def add_features_nth [OF l] p shift_nth raw sample_reading_def)
qed

lemma infinite_reading_row_5: "has_nan (add_features infinite_reading_frame ! 5)"
proof -
  have p: "map Power_Consumption infinite_reading_frame = [Fin 1, Fin 2, Fin 3, Fin 4, Fin 5, PInf]"
    unfolding infinite_reading_frame_def by (rule power_of_samples)
  have l: "5 < length infinite_reading_frame" by (simp add: infinite_reading_frame_def)
  have "isnan (power_roll_std_1h (add_features infinite_reading_frame ! 5))"
    by (simp add: add_features_nth [OF l] p infinite_reading_std)
  then show ?thesis by (simp add: has_nan_def)
qed

lemma infinite_reading_engineer:
  "engineer infinite_reading_frame = [add_features infinite_reading_frame ! 4]"
proof -
  let ?f = "add_features infinite_reading_frame"
  have len: "length ?f = 6" by (simp add: length_add_features infinite_reading_frame_def)
  have w: "\<And>i. i < 4 \<Longrightarrow> has_nan (?f ! i)"
    by (rule warm_up_has_nan) (simp_all add: infinite_reading_frame_def)
  have u: "[0..<6] = [0, 1, 2, 3, 4, 5]" by (simp add: upt_rec)
  have "dropna ?f = map ((!) ?f) (filter (\<lambda>i. \<not> has_nan (?f ! i)) [0..<length ?f])"
    unfolding dropna_def by (rule filter_by_index)
  also have "filter (\<lambda>i. \<not> has_nan (?f ! i)) [0..<length ?f] = [4]"
    unfolding len u
    using w [of 0] w [of 1] w [of 2] w [of 3] infinite_reading_row_4 infinite_reading_row_5
    by simp
  finally show ?thesis by (simp add: engineer_def)
qed


lemma huge_nth:
  "huge_readings ! 0 = Fin (2 ^ 600)" "huge_readings ! Suc 0 = Fin 1"
  "huge_readings ! Suc (Suc 0) = Fin 2" "huge_readings ! Suc (Suc (Suc 0)) = Fin 3"
  "huge_readings ! Suc (Suc (Suc (Suc 0))) = Fin 4"
  by (simp_all add: huge_readings_def)

lemma huge_0:
  "var_scan huge_readings 0 =
     \<lparr>v_nobs = 1, v_mean_x = Fin (2 ^ 600), v_ssqdm_x = Fin 0, v_compensation_add = Fin 0,
      v_compensation_remove = Fin 0, v_num_consecutive_same_value = 1,
      v_prev_value = Fin (2 ^ 600)\<rparr>"
  by (simp add: var_eval huge_nth)

lemma huge_1:
  "var_scan huge_readings (Suc 0) =
     \<lparr>v_nobs = 2, v_mean_x = Fin ((2 ^ 600 + 1) / 2), v_ssqdm_x = PInf,
      v_compensation_add = Fin 0, v_compensation_remove = Fin 0,
      v_num_consecutive_same_value = 1, v_prev_value = Fin 1\<rparr>"
  by (subst var_scan_Suc) (simp add: var_eval huge_0 huge_nth del: var_scan.simps)

lemma huge_2:
  "var_scan huge_readings (Suc (Suc 0)) =
     \<lparr>v_nobs = 3, v_mean_x = Fin ((2 ^ 600 + 3) / 3), v_ssqdm_x = PInf,
      v_compensation_add = Fin 0, v_compensation_remove = Fin 0,
      v_num_consecutive_same_value = 1, v_prev_value = Fin 2\<rparr>"
  by (subst var_scan_Suc) (simp add: var_eval huge_1 huge_nth del: var_scan.simps)

lemma huge_3:
  "var_scan huge_readings (Suc (Suc (Suc 0))) =
     \<lparr>v_nobs = 4, v_mean_x = Fin ((2 ^ 600 + 6) / 4), v_ssqdm_x = PInf,
      v_compensation_add = Fin 0, v_compensation_remove = Fin 0,
      v_num_consecutive_same_value = 1, v_prev_value = Fin 3\<rparr>"
  by (subst var_scan_Suc) (simp add: var_eval huge_2 huge_nth del: var_scan.simps)

lemma huge_4:
  "var_scan huge_readings (Suc (Suc (Suc (Suc 0)))) =
     \<lparr>v_nobs = 4, v_mean_x = Fin (5 / 2), v_ssqdm_x = NaN,
      v_compensation_add = Fin 0, v_compensation_remove = Fin 0,
      v_num_consecutive_same_value = 1, v_prev_value = Fin 4\<rparr>"
  by (subst var_scan_Suc) (simp add: var_eval huge_3 huge_nth del: var_scan.simps)

lemma huge_reading_std: "roll_std huge_readings ! 4 = NaN"
proof -
  have "length huge_readings = 5" by (simp add: huge_readings_def)
  then have "roll_std huge_readings ! 4 =
      zsqrt (calc_var 4 1 (var_scan huge_readings (Suc (Suc (Suc (Suc 0))))))"
    by (simp add: roll_std_def roll_var_def eval_nat_numeral del: var_scan.simps)
  then show ?thesis unfolding huge_4 by (simp add: calc_var_def)
qed

lemma huge_reading_engineer: "engineer huge_reading_frame = []"
proof -
  let ?f = "add_features huge_reading_frame"
  have p: "map Power_Consumption huge_reading_frame = huge_readings"
    unfolding huge_reading_frame_def by (rule power_of_samples)
  have len: "length huge_reading_frame = 5"
    by (simp add: huge_reading_frame_def huge_readings_def)
  have w: "\<And>i. i < 4 \<Longrightarrow> has_nan (?f ! i)"
    by (rule warm_up_has_nan) (simp_all add: len)
  have "isnan (power_roll_std_1h (?f ! 4))"
    by (simp add: add_features_nth len p huge_reading_std)
  then have h: "has_nan (?f ! 4)" by (simp add: has_nan_def)
  have u: "[0..<5] = [0, 1, 2, 3, 4]" by (simp add: upt_rec)
  have "dropna ?f = map ((!) ?f) (filter (\<lambda>i. \<not> has_nan (?f ! i)) [0..<length ?f])"
    unfolding dropna_def by (rule filter_by_index)
  also have "filter (\<lambda>i. \<not> has_nan (?f ! i)) [0..<length ?f] = []"
    unfolding length_add_features len u
    using w [of 0] w [of 1] w [of 2] w [of 3] h by simp
  finally show ?thesis by (simp add: engineer_def)
qed

text \<open>
  Claim C7 as stated asks only for rows without missing values.  An infinite reading is
  not missing, yet once it enters the running variance the sum of squared deviations is
  \<open>inf * (inf - inf)\<close>, a NaN: of six rows whose last reading is infinite one row is
  left, not two.  A finite reading can do the same.  With the readings
  \<open>2^600, 1, 2, 3, 4\<close> the sum of squared deviations overflows in row 1, and when
  \<open>2^600\<close> leaves the window in row 4 the update is \<open>inf - inf\<close>: no row is left where
  the claim promises one.
\<close>

theorem engineer_non_finite_counterexample:
  "list_all no_missing_values infinite_reading_frame \<and>
   5 \<le> length infinite_reading_frame \<and>
   length infinite_reading_frame - 4 = 2 \<and>
   length (engineer infinite_reading_frame) = 1 \<and>
   list_all no_missing_values huge_reading_frame \<and>
   list_all (\<lambda>r. isfinite (Power_Consumption r)) huge_reading_frame \<and>
   5 \<le> length huge_reading_frame \<and>
   length huge_reading_frame - 4 = 1 \<and>
   length (engineer huge_reading_frame) = 0"
  by (simp add: infinite_reading_engineer huge_reading_engineer)
    (simp add: infinite_reading_frame_def huge_reading_frame_def huge_readings_def
      no_missing_values_def sample_reading_def)

subsection \<open>The binary64 products of the split\<close>

text \<open>
  The significand \<open>7205759403792794\<close> has 53 bits and is the integer nearest to
  \<open>0.8 * 2^53\<close> (and to \<open>0.2 * 2^55\<close>), so \<open>double_0_8\<close> and \<open>double_0_2\<close> are the
  doubles that the literals \<open>0.8\<close> and \<open>0.2\<close> denote.
\<close>

lemma double_literals:
  "2 ^ 52 \<le> significand double_0_8" "significand double_0_8 < 2 ^ 53"
  "\<bar>double_value double_0_8 - 8 / 10\<bar> * 2 ^ 53 < 1 / 2"
  "\<bar>double_value double_0_2 - 2 / 10\<bar> * 2 ^ 55 < 1 / 2"
  by (simp_all add: double_0_8_def double_0_2_def double_value_def)

lemma bit_length_upper: "n < 2 ^ bit_length n"
proof (induction n rule: bit_length.induct)
  case (1 n)
  show ?case
  proof (cases "n = 0")
    case True
    then show ?thesis by (simp add: bit_length.simps)
  next
    case False
    then have "n div 2 < 2 ^ bit_length (n div 2)" using 1 by simp
    then have "n < 2 * 2 ^ bit_length (n div 2)" by linarith
    with False show ?thesis by (subst bit_length.simps) simp
  qed
qed

lemma bit_length_le: "n < 2 ^ k \<Longrightarrow> bit_length n \<le> k"
proof (induction n arbitrary: k rule: bit_length.induct)
  case (1 n)
  show ?case
  proof (cases "n = 0")
    case True
    then show ?thesis by (simp add: bit_length.simps)
  next
    case False
    with 1(2) obtain j where k: "k = Suc j" by (cases k) auto
    with 1(2) have "n div 2 < 2 ^ j" by auto
    with 1(1) [OF False] have "bit_length (n div 2) \<le> j" by simp
    with False k show ?thesis by (subst bit_length.simps) simp
  qed
qed

lemma round53_small: "n < 2 ^ 53 \<Longrightarrow> round53 n = n"
  using bit_length_le [of n 53] by (simp add: round53_def)

lemma round53_cases:
  "round53 p = (p div 2 ^ (bit_length p - 53)) * 2 ^ (bit_length p - 53) \<or>
   (round53 p = (p div 2 ^ (bit_length p - 53) + 1) * 2 ^ (bit_length p - 53) \<and>
    2 ^ (bit_length p - 53) \<le> 2 * (p mod 2 ^ (bit_length p - 53)))"
  by (auto simp: round53_def Let_def not_less)

lemma round53_dvd: "2 ^ (bit_length p - 53) dvd round53 p"
  using round53_cases [of p] by auto

lemma round53_upper: "2 * round53 p \<le> 2 * p + 2 ^ (bit_length p - 53)"
proof -
  let ?s = "bit_length p - 53"
  have p: "p = (p div 2 ^ ?s) * 2 ^ ?s + p mod 2 ^ ?s" by (rule div_mult_mod_eq [symmetric])
  from round53_cases [of p] show ?thesis
  proof
    assume "round53 p = (p div 2 ^ ?s) * 2 ^ ?s"
    with p show ?thesis by linarith
  next
    assume a: "round53 p = (p div 2 ^ ?s + 1) * 2 ^ ?s \<and> 2 ^ ?s \<le> 2 * (p mod 2 ^ ?s)"
    then have "round53 p = (p div 2 ^ ?s) * 2 ^ ?s + 2 ^ ?s" by (simp add: algebra_simps)
    with a p show ?thesis by linarith
  qed
qed

lemma round53_lower: "p < round53 p + 2 ^ (bit_length p - 53)"
proof -
  let ?s = "bit_length p - 53"
  have p: "p = (p div 2 ^ ?s) * 2 ^ ?s + p mod 2 ^ ?s" by (rule div_mult_mod_eq [symmetric])
  have m: "p mod 2 ^ ?s < 2 ^ ?s" by simp
  from round53_cases [of p] show ?thesis
  proof
    assume "round53 p = (p div 2 ^ ?s) * 2 ^ ?s"
    with p m show ?thesis by linarith
  next
    assume a: "round53 p = (p div 2 ^ ?s + 1) * 2 ^ ?s \<and> 2 ^ ?s \<le> 2 * (p mod 2 ^ ?s)"
    then have "round53 p = (p div 2 ^ ?s) * 2 ^ ?s + 2 ^ ?s" by (simp add: algebra_simps)
    with p m show ?thesis by linarith
  qed
qed

lemma round53_ge_multiple:
  assumes "a \<le> p" "2 ^ (bit_length p - 53) dvd a"
  shows "a \<le> round53 p"
proof -
  let ?s = "bit_length p - 53"
  from assms(2) obtain c where c: "a = 2 ^ ?s * c" by (auto simp: dvd_def)
  with assms(1) have "c \<le> p div 2 ^ ?s"
    by (simp add: less_eq_div_iff_mult_less_eq mult.commute)
  then have "a \<le> (p div 2 ^ ?s) * 2 ^ ?s" using c by (simp add: mult.commute)
  moreover have "(p div 2 ^ ?s) * 2 ^ ?s \<le> round53 p"
    using round53_cases [of p] by auto
  ultimately show ?thesis by linarith
qed

lemma round53_le_multiple:
  assumes "p \<le> b" "2 ^ (bit_length p - 53) dvd b"
  shows "round53 p \<le> b"
proof -
  let ?s = "bit_length p - 53"
  from assms(2) obtain c where c: "b = 2 ^ ?s * c" by (auto simp: dvd_def)
  from round53_dvd [of p] obtain d where d: "round53 p = 2 ^ ?s * d" by (auto simp: dvd_def)
  have "2 * round53 p \<le> 2 * p + 2 ^ ?s" by (rule round53_upper)
  moreover have "0 < (2::nat) ^ ?s" by simp
  ultimately have "round53 p < p + 2 ^ ?s" by linarith
  then have "2 ^ ?s * d < 2 ^ ?s * c + 2 ^ ?s" using assms(1) c d by linarith
  then have "2 ^ ?s * d < 2 ^ ?s * (c + 1)" by simp
  then have "d < c + 1" by (simp only: nat_mult_less_cancel_disj) 
  then have "2 ^ ?s * d \<le> 2 ^ ?s * c" by simp
  with c d show ?thesis by simp
qed

lemma round53_eq_multiple:
  assumes "a \<le> p" "2 * p < 2 * a + 2 ^ (bit_length p - 53)" "2 ^ (bit_length p - 53) dvd a"
  shows "round53 p = a"
proof -
  let ?s = "bit_length p - 53"
  from assms(3) obtain c where c: "a = 2 ^ ?s * c" by (auto simp: dvd_def)
  from round53_dvd [of p] obtain d where d: "round53 p = 2 ^ ?s * d" by (auto simp: dvd_def)
  have ge: "a \<le> round53 p" by (rule round53_ge_multiple [OF assms(1,3)])
  have "2 * round53 p \<le> 2 * p + 2 ^ ?s" by (rule round53_upper)
  with assms(2) have "round53 p < a + 2 ^ ?s" by linarith
  then have "2 ^ ?s * d < 2 ^ ?s * (c + 1)" using c d by simp
  then have "d < c + 1" by (simp only: nat_mult_less_cancel_disj)
  then have "2 ^ ?s * d \<le> 2 ^ ?s * c" by simp
  with c d ge show ?thesis by simp
qed

lemma product_shift_le:
  assumes "n < 2 ^ 50"
  shows "bit_length (n * 7205759403792794) - 53 \<le> 50"
proof -
  have "n * 7205759403792794 < 2 ^ 50 * 2 ^ 53"
    using assms by (intro mult_strict_mono) simp_all
  then have "n * 7205759403792794 < 2 ^ 103" by simp
  then have "bit_length (n * 7205759403792794) \<le> 103" by (rule bit_length_le)
  then show ?thesis by simp
qed

lemma split_idx_exact:
  assumes "n < 2 ^ 50"
  shows "split_idx n = (4 * n) div 5"
proof -
  let ?p = "n * 7205759403792794"
  let ?s = "bit_length ?p - 53"
  let ?m = "(4 * n) div 5"
  have n53: "round53 n = n" using assms by (intro round53_small) simp
  have s: "?s \<le> 50" by (rule product_shift_le [OF assms])
  have m: "5 * ?m \<le> 4 * n" "4 * n < 5 * ?m + 5" by presburger+
  have dvd53: "2 ^ ?s dvd (2::nat) ^ 53" using s by (intro le_imp_power_dvd) simp
  have "2 ^ ?s dvd ?m * 2 ^ 53" using dvd53 by (rule dvd_mult)
  moreover have "?m * 2 ^ 53 \<le> ?p" using m by simp
  ultimately have lo: "?m * 2 ^ 53 \<le> round53 ?p" by (intro round53_ge_multiple)
  have "(2::nat) ^ ?s \<le> 2 ^ 50" using s by (intro power_increasing) simp_all
  moreover have "2 * round53 ?p \<le> 2 * ?p + 2 ^ ?s" by (rule round53_upper)
  ultimately have "2 * round53 ?p \<le> 2 * ?p + 2 ^ 50" by linarith
  then have hi: "round53 ?p < (?m + 1) * 2 ^ 53" using m assms by simp
  have "round53 ?p div 2 ^ 53 = ?m"
    using lo hi by (intro div_nat_eqI) (simp_all add: mult.commute)
  then show ?thesis
    by (simp add: split_idx_def double_to_int_def double_mul_def double_of_nat_def
        double_0_8_def n53)
qed

lemma n_test_exact:
  assumes "n < 2 ^ 50"
  shows "double_ceil (double_mul double_0_2 (double_of_nat n)) = (n + 4) div 5"
proof -
  let ?p = "7205759403792794 * n"
  let ?s = "bit_length ?p - 53"
  let ?k = "n div 5"
  have n53: "round53 n = n" using assms by (intro round53_small) simp
  have s: "?s \<le> 50" using product_shift_le [OF assms] by (simp add: mult.commute)
  have dvd55: "2 ^ ?s dvd (2::nat) ^ 55" using s by (intro le_imp_power_dvd) simp
  have pow: "(2::nat) ^ ?s \<le> 2 ^ 50" using s by (intro power_increasing) simp_all
  have "(round53 ?p + 2 ^ 55 - 1) div 2 ^ 55 = (n + 4) div 5"
  proof (cases "n mod 5 = 0")
    case True
    then have n: "n = 5 * ?k" by presburger
    have a: "?k * 2 ^ 55 \<le> ?p" by (subst (2) n) simp
    have d: "2 ^ ?s dvd ?k * 2 ^ 55" using dvd55 by (rule dvd_mult)
    have "4 * ?k < 2 ^ ?s \<or> ?k = 0"
    proof (rule ccontr)
      assume "\<not> (4 * ?k < 2 ^ ?s \<or> ?k = 0)"
      then have c: "2 ^ ?s \<le> 4 * ?k" by simp
      have "bit_length ?p \<le> ?s + 53" by simp
      then have "(2::nat) ^ bit_length ?p \<le> 2 ^ (?s + 53)" by (intro power_increasing) simp_all
      also have "\<dots> = 2 ^ ?s * 2 ^ 53" by (simp add: power_add)
      also have "\<dots> \<le> (4 * ?k) * 2 ^ 53" using c by (intro mult_right_mono) simp_all
      also have "\<dots> \<le> ?p" using a by simp
      finally show False using bit_length_upper [of ?p] by simp
    qed
    then have "2 * ?p < 2 * (?k * 2 ^ 55) + 2 ^ ?s"
    proof
      assume "4 * ?k < 2 ^ ?s"
      moreover have "2 * ?p = 2 * (?k * 2 ^ 55) + 4 * ?k" by (subst (1) n) simp
      ultimately show ?thesis by linarith
    next
      assume "?k = 0"
      with n have "n = 0" by simp
      then show ?thesis by simp
    qed
    with a d have "round53 ?p = ?k * 2 ^ 55" by (intro round53_eq_multiple)
    moreover have "(n + 4) div 5 = ?k" using True by presburger
    moreover have "(?k * 2 ^ 55 + 2 ^ 55 - 1) div 2 ^ 55 = ?k"
      by (intro div_nat_eqI) simp_all
    ultimately show ?thesis by simp
  next
    case False
    then have r: "5 * ?k + 1 \<le> n" "n \<le> 5 * ?k + 4" by presburger+
    have k1: "(n + 4) div 5 = ?k + 1" using False by presburger
    have "?p \<le> (?k + 1) * 2 ^ 55" using r assms by simp
    moreover have "2 ^ ?s dvd (?k + 1) * 2 ^ 55" using dvd55 by (rule dvd_mult)
    ultimately have hi: "round53 ?p \<le> (?k + 1) * 2 ^ 55" by (intro round53_le_multiple)
    have "?p < round53 ?p + 2 ^ ?s" by (rule round53_lower)
    with pow have "?p < round53 ?p + 2 ^ 50" by linarith
    then have lo: "?k * 2 ^ 55 < round53 ?p" using r by simp
    have "(round53 ?p + 2 ^ 55 - 1) div 2 ^ 55 = ?k + 1"
      using lo hi by (intro div_nat_eqI) simp_all
    with k1 show ?thesis by simp
  qed
  then show ?thesis
    by (simp add: double_ceil_def double_mul_def double_of_nat_def double_0_2_def n53)
qed

lemma validate_shuffle_split_exact:
  assumes "n < 2 ^ 50"
  shows "validate_shuffle_split n =
           (if n < 2 then Inl ValueError else Inr ((4 * n) div 5, (n + 4) div 5))"
proof -
  have a: "int n - int ((n + 4) div 5) = int ((4 * n) div 5)" by presburger
  have b: "(4 * n) div 5 = 0 \<longleftrightarrow> n < 2" by presburger
  have "validate_shuffle_split n =
          (if int ((4 * n) div 5) = 0 then Inl ValueError
           else Inr (nat (int ((4 * n) div 5)), nat (int ((n + 4) div 5))))"
    unfolding validate_shuffle_split_def n_test_exact [OF assms] Let_def a by simp
  with b show ?thesis by simp
qed

lemma floor_four_fifths: "nat \<lfloor>real n * 0.8\<rfloor> = (4 * n) div 5"
proof -
  have "real n * 0.8 = real (4 * n) / real 5" by simp
  then have "\<lfloor>real n * 0.8\<rfloor> = int ((4 * n) div 5)"
    by (simp only: floor_divide_of_nat_eq)
  then show ?thesis by simp
qed

subsection \<open>The serving split\<close>

text \<open>
  Claim C6.  For a feature frame of at least 10 rows (and fewer than \<open>2^50\<close>, far beyond
  what memory holds), the cut index is \<open>floor(len * 0.8)\<close>, the training part is the
  prefix up to the cut and the test part the suffix from the cut, so the two lengths add
  up to the length of the frame and the training part has \<open>floor(0.8 * len)\<close> rows.
\<close>

theorem split_cut_floor:
  assumes "10 \<le> length features" and "length features < 2 ^ 50"
  shows "split_idx (length features) = nat \<lfloor>real (length features) * 0.8\<rfloor> \<and>
         df_train features = take (nat \<lfloor>real (length features) * 0.8\<rfloor>) features \<and>
         df_test features = drop (nat \<lfloor>real (length features) * 0.8\<rfloor>) features \<and>
         length (df_train features) + length (df_test features) = length features \<and>
         length (df_train features) = nat \<lfloor>0.8 * real (length features)\<rfloor>"
proof -
  let ?n = "length features"
  have c: "split_idx ?n = nat \<lfloor>real ?n * 0.8\<rfloor>"
    using split_idx_exact [OF assms(2)] floor_four_fifths [of ?n] by simp
  have le: "nat \<lfloor>real ?n * 0.8\<rfloor> \<le> ?n"
    unfolding floor_four_fifths by simp
  have "length (df_train features) = nat \<lfloor>0.8 * real ?n\<rfloor>"
    using le by (simp add: df_train_def c mult.commute)
  then show ?thesis using le by (simp add: df_train_def df_test_def c)
qed

theorem split_cut_floor_witness:
  "10 \<le> length [0 ..< 12] \<and> length [0 ..< 12] < 2 ^ 50 \<and>
   split_idx (length [0 ..< 12]) = 9 \<and>
   df_train [0 ..< 12] = [0 ..< 9] \<and> df_test [0 ..< 12] = [9 ..< 12] \<and>
   length (df_train [0 ..< 12]) + length (df_test [0 ..< 12]) = length [0 ..< 12]"
proof -
  have a: "10 \<le> length [0 ..< 12]" and b: "length [0 ..< 12] < 2 ^ 50" by simp_all
  have f: "nat \<lfloor>real (length [0 ..< 12]) * 0.8\<rfloor> = 9"
    unfolding floor_four_fifths by simp
  note t = split_cut_floor [OF a b, unfolded f]
  have "take 9 [0 ..< 12] = [0 ..< 9]" by (simp add: take_upt)
  moreover have "drop 9 [0 ..< 12] = [9 ..< 12]" by (simp add: drop_upt)
  ultimately show ?thesis using t by simp
qed

subsection \<open>Training split against serving split\<close>

lemma train_test_split_exact:
  assumes "length X < 2 ^ 50"
  shows "train_test_split X =
           (if length X < 2 then Inl ValueError else Inr (df_train X, df_test X))"
proof -
  let ?n = "length X"
  have "?n - (4 * ?n) div 5 = (?n + 4) div 5" by presburger
  then have "take ((?n + 4) div 5) (drop ((4 * ?n) div 5) X) = drop ((4 * ?n) div 5) X"
    by simp
  then show ?thesis
    by (simp add: train_test_split_def validate_shuffle_split_exact [OF assms] df_train_def
        df_test_def split_idx_exact [OF assms])
qed

text \<open>
  Claim C2, as the code has it.  For every frame of at least 2 rows (and fewer than
  \<open>2^50\<close>), \<open>train_test_split(test_size=0.2, shuffle=False)\<close> returns exactly the two
  frames that the serving script slices at \<open>int(len * 0.8)\<close>: same training rows, same
  test rows, in the same order.
\<close>

theorem training_split_is_serving_split:
  assumes "2 \<le> length X" and "length X < 2 ^ 50"
  shows "train_test_split X = Inr (df_train X, df_test X)"
  using assms train_test_split_exact [of X] by simp

theorem training_split_is_serving_split_witness:
  "2 \<le> length [0 ..< 12] \<and> length [0 ..< 12] < 2 ^ 50 \<and>
   train_test_split [0 ..< 12] = Inr (df_train [0 ..< 12], df_test [0 ..< 12])"
proof -
  have a: "2 \<le> length [0 ..< 12]" and b: "length [0 ..< 12] < 2 ^ 50" by simp_all
  show ?thesis using training_split_is_serving_split [OF a b] by simp
qed

text \<open>
  Claim C2 as stated covers every length.  On a single row the training split raises
  \<open>ValueError\<close> (its training part would be empty), while the serving split returns an
  empty training part and the row as the test part.
\<close>

theorem training_split_single_row_counterexample:
  "train_test_split [0 :: nat] = Inl ValueError \<and>
   df_train [0 :: nat] = [] \<and> df_test [0 :: nat] = [0]"
proof -
  have "length [0 :: nat] < 2 ^ 50" by simp
  then have "train_test_split [0 :: nat] = Inl ValueError"
    by (simp add: train_test_split_exact)
  moreover have "split_idx 1 = 0" by (simp add: split_idx_exact)
  ultimately show ?thesis by (simp add: df_train_def df_test_def)
qed

subsection \<open>The serving split validates nothing\<close>

text \<open>
  Claim C4, as the code has it.  The serving split has no fraction argument (the factor is
  the literal \<open>0.8\<close>) and never rejects a frame: for every frame, of any length, its
  outcome is the prefix up to \<open>int(len * 0.8)\<close> and the suffix from there, which together
  are the frame.
\<close>

theorem serve_split_never_rejects:
  "serve_split df_raw =
     Inr (take (split_idx (length df_raw)) df_raw, drop (split_idx (length df_raw)) df_raw) \<and>
   df_train df_raw @ df_test df_raw = df_raw"
  by (simp add: serve_split_def df_train_def df_test_def)

text \<open>
  Claim C4 as stated has every frame of fewer than 10 rows rejected.  A frame of 5 rows is
  split into 4 training rows and 1 test row.
\<close>

theorem serve_split_short_frame_counterexample:
  "length [1, 2, 3, 4, 5 :: nat] < 10 \<and>
   serve_split [1, 2, 3, 4, 5 :: nat] = Inr ([1, 2, 3, 4], [5])"
proof -
  have "split_idx (length [1, 2, 3, 4, 5 :: nat]) = 4" by (simp add: split_idx_exact)
  then show ?thesis by (simp add: serve_split_def df_train_def df_test_def)
qed

subsection \<open>Tomorrow's profile\<close>

lemma length_forecastTomorrow: "length (forecastTomorrow test_rows wd) = 24"
  by (simp add: forecastTomorrow_def Let_def)

lemma forecastTomorrow_nth:
  assumes "h < 24"
  shows "forecastTomorrow test_rows wd ! h =
    \<lparr>te_hour = h, te_label = hour_label h,
     te_predicted = (if \<not> isnan (dow_hourly (tomorrow_rows test_rows wd) h)
                     then safe_float (PyFloat (dow_hourly (tomorrow_rows test_rows wd) h))
                     else Some (Fin 0)),
     te_confidence = CONFIDENCE_BASE + h mod 4\<rparr>"
  using assms by (simp add: forecastTomorrow_def Let_def)


lemma insert_asc_Fin: "insert_asc (Fin x) (map Fin xs) = map Fin (insort x xs)"
  by (induction xs) (auto simp: not_less)

lemma sort_asc_Fin: "sort_asc (map Fin xs) = map Fin (sort xs)"
  by (induction xs) (simp_all add: sort_asc_def insert_asc_Fin sort_key_def)

lemma filter_isnan_Fin: "filter (\<lambda>v. \<not> isnan v) (map Fin xs) = map Fin xs"
  by (induction xs) simp_all

lemma median_Fin:
  assumes "xs \<noteq> []"
  shows "median (map Fin xs) = Fin (textbook_median xs)"
proof -
  let ?n = "length xs"
  have n: "0 < ?n" using assms by simp
  then have a: "?n div 2 < ?n" and b: "?n div 2 - Suc 0 < ?n" by arith+
  have c: "sort xs \<noteq> []" using assms by (metis length_sort length_0_conv)
  show ?thesis
    using assms n a b c
    by (simp add: median_def textbook_median_def filter_isnan_Fin sort_asc_Fin Let_def)
qed

lemma textbook_median_is_median:
  assumes "xs \<noteq> []"
  shows "2 * length (filter (\<lambda>x. x < textbook_median xs) xs) \<le> length xs \<and>
         2 * length (filter (\<lambda>x. textbook_median xs < x) xs) \<le> length xs"
proof -
  let ?ys = "sort xs"
  let ?n = "length xs"
  let ?m = "textbook_median xs"
  have len: "length ?ys = ?n" by simp
  have n: "0 < ?n" using assms by simp
  have srt: "sorted ?ys" by simp
  have cnt: "\<And>P. length (filter P xs) = length (filter P ?ys)"
  proof -
    fix P
    have "filter P (sort xs) = sort (filter P xs)" by (rule filter_sort)
    then show "length (filter P xs) = length (filter P ?ys)" by simp
  qed
  have lo: "?ys ! ((?n - 1) div 2) \<le> ?m" and hi: "?m \<le> ?ys ! (?n div 2)"
  proof -
    have i: "(?n - 1) div 2 \<le> ?n div 2" by simp
    have j: "?n div 2 < length ?ys" using n by simp
    have le: "?ys ! ((?n - 1) div 2) \<le> ?ys ! (?n div 2)"
      using srt i j by (rule sorted_nth_mono)
    show "?ys ! ((?n - 1) div 2) \<le> ?m"
    proof (cases "odd ?n")
      case True
      then have "(?n - 1) div 2 = ?n div 2" by presburger
      with True show ?thesis by (simp add: textbook_median_def Let_def)
    next
      case False
      then have e: "(?n - 1) div 2 = ?n div 2 - 1" using n by presburger
      with False le show ?thesis by (simp add: textbook_median_def Let_def)
    qed
    show "?m \<le> ?ys ! (?n div 2)"
    proof (cases "odd ?n")
      case True
      then show ?thesis by (simp add: textbook_median_def Let_def)
    next
      case False
      then have e: "(?n - 1) div 2 = ?n div 2 - 1" using n by presburger
      with False le show ?thesis by (simp add: textbook_median_def Let_def)
    qed
  qed
  have below: "length (filter (\<lambda>x. x < ?m) ?ys) \<le> ?n div 2"
  proof -
    have "filter (\<lambda>x. x < ?m) ?ys = filter (\<lambda>x. x < ?m) (take (?n div 2) ?ys)"
    proof -
      have "filter (\<lambda>x. x < ?m) (drop (?n div 2) ?ys) = []"
      proof (rule filter_False, rule ballI)
        fix x assume "x \<in> set (drop (?n div 2) ?ys)"
        then obtain k where "x = ?ys ! (?n div 2 + k)" "?n div 2 + k < length ?ys"
          by (auto simp: in_set_conv_nth)
        then have "?ys ! (?n div 2) \<le> x" using srt by (simp add: sorted_nth_mono)
        with hi show "\<not> x < ?m" by simp
      qed
      then have "filter (\<lambda>x. x < ?m) (take (?n div 2) ?ys @ drop (?n div 2) ?ys) =
          filter (\<lambda>x. x < ?m) (take (?n div 2) ?ys)"
        by (simp only: filter_append append_Nil2)
      then show ?thesis by simp
    qed
    moreover have "length (filter (\<lambda>x. x < ?m) (take (?n div 2) ?ys)) \<le> length (take (?n div 2) ?ys)"
      by (rule length_filter_le)
    ultimately show ?thesis by simp
  qed
  have above: "length (filter (\<lambda>x. ?m < x) ?ys) \<le> ?n div 2"
  proof -
    let ?k = "Suc ((?n - 1) div 2)"
    have "filter (\<lambda>x. ?m < x) (take ?k ?ys) = []"
    proof (rule filter_False, rule ballI)
      fix x assume "x \<in> set (take ?k ?ys)"
      then obtain i where "x = ?ys ! i" "i < ?k" "i < length ?ys"
        by (auto simp: in_set_conv_nth)
      then have "x \<le> ?ys ! ((?n - 1) div 2)" using srt n by (simp add: sorted_nth_mono)
      with lo show "\<not> ?m < x" by simp
    qed
    then have "filter (\<lambda>x. ?m < x) (take ?k ?ys @ drop ?k ?ys) = filter (\<lambda>x. ?m < x) (drop ?k ?ys)"
      by (simp only: filter_append append_Nil)
    then have "filter (\<lambda>x. ?m < x) ?ys = filter (\<lambda>x. ?m < x) (drop ?k ?ys)" by simp
    moreover have "length (filter (\<lambda>x. ?m < x) (drop ?k ?ys)) \<le> length (drop ?k ?ys)"
      by (rule length_filter_le)
    moreover have "length (drop ?k ?ys) \<le> ?n div 2" using n by simp
    ultimately show ?thesis by simp
  qed
  have "2 * (?n div 2) \<le> ?n" by simp
  with below above show ?thesis unfolding cnt by linarith
qed

lemma tomorrow_rows_eq:
  "tomorrow_rows rows wd =
     (if list_ex (\<lambda>r. dayofweek r = (wd + 1) mod 7) rows
      then filter (\<lambda>r. dayofweek r = (wd + 1) mod 7) rows else rows)"
  by (auto simp: tomorrow_rows_def Let_def filter_empty_conv list_ex_iff)

text \<open>
  Claim C5.  The rows behind tomorrow's profile are the cached rows whose \<open>dayofweek\<close>
  is tomorrow's, or the whole cache when there is none.  For each hour \<open>h\<close> of the day,
  an hour without a selected row reports 0 (a number, not null); an hour whose selected
  rows hold the finite predictions \<open>xs\<close> reports the median of \<open>xs\<close> (at most half of
  the values lie below it and at most half above), rounded to four decimal places like
  every number of the payload.
\<close>

theorem tomorrow_profile:
  assumes "h < 24"
  shows "tomorrow_rows rows wd =
           (if list_ex (\<lambda>r. dayofweek r = (wd + 1) mod 7) rows
            then filter (\<lambda>r. dayofweek r = (wd + 1) mod 7) rows else rows) \<and>
         (filter (\<lambda>r. hour r = h) (tomorrow_rows rows wd) = [] \<longrightarrow>
            te_predicted (forecastTomorrow rows wd ! h) = Some (Fin 0)) \<and>
         (map predicted_kw (filter (\<lambda>r. hour r = h) (tomorrow_rows rows wd)) = map Fin xs \<and>
          xs \<noteq> [] \<longrightarrow>
            te_predicted (forecastTomorrow rows wd ! h) =
              Some (py_round (Fin (textbook_median xs)) 4) \<and>
            2 * length (filter (\<lambda>x. x < textbook_median xs) xs) \<le> length xs \<and>
            2 * length (filter (\<lambda>x. textbook_median xs < x) xs) \<le> length xs)"
proof (intro conjI impI)
  show "tomorrow_rows rows wd =
           (if list_ex (\<lambda>r. dayofweek r = (wd + 1) mod 7) rows
            then filter (\<lambda>r. dayofweek r = (wd + 1) mod 7) rows else rows)"
    by (rule tomorrow_rows_eq)
next
  assume "filter (\<lambda>r. hour r = h) (tomorrow_rows rows wd) = []"
  then show "te_predicted (forecastTomorrow rows wd ! h) = Some (Fin 0)"
    using assms by (simp add: forecastTomorrow_nth dow_hourly_def)
next
  assume a: "map predicted_kw (filter (\<lambda>r. hour r = h) (tomorrow_rows rows wd)) = map Fin xs \<and> xs \<noteq> []"
  then have ne: "filter (\<lambda>r. hour r = h) (tomorrow_rows rows wd) \<noteq> []" by auto
  have "dow_hourly (tomorrow_rows rows wd) h = Fin (textbook_median xs)"
    using a ne by (simp add: dow_hourly_def median_Fin)
  then show "te_predicted (forecastTomorrow rows wd ! h) = Some (py_round (Fin (textbook_median xs)) 4)"
    using assms by (simp add: forecastTomorrow_nth)
  show "2 * length (filter (\<lambda>x. x < textbook_median xs) xs) \<le> length xs"
    using a textbook_median_is_median [of xs] by simp
  show "2 * length (filter (\<lambda>x. textbook_median xs < x) xs) \<le> length xs"
    using a textbook_median_is_median [of xs] by simp
qed

lemma sample_tomorrow:
  "tomorrow_rows sample_cache 2 =
     [sample_prediction 7 3 (Fin 1), sample_prediction 7 3 (Fin 9), sample_prediction 7 3 (Fin 2),
      sample_prediction 8 3 (Fin 5)]"
  by (simp add: tomorrow_rows_def sample_cache_def sample_prediction_def)

lemma sample_tomorrow_fallback: "tomorrow_rows sample_cache 5 = sample_cache"
  by (simp add: tomorrow_rows_def sample_cache_def sample_prediction_def)

lemma sample_median: "textbook_median [1, 9, 2] = 2"
  by (simp add: textbook_median_def)

theorem tomorrow_profile_witness:
  "(7 :: nat) < 24 \<and> (5 :: nat) < 24 \<and>
   map predicted_kw (filter (\<lambda>r. hour r = 7) (tomorrow_rows sample_cache 2)) = map Fin [1, 9, 2] \<and>
   te_predicted (forecastTomorrow sample_cache 2 ! 7) = Some (Fin 2) \<and>
   filter (\<lambda>r. hour r = 5) (tomorrow_rows sample_cache 2) = [] \<and>
   te_predicted (forecastTomorrow sample_cache 2 ! 5) = Some (Fin 0) \<and>
   tomorrow_rows sample_cache 5 = sample_cache"
proof -
  have h7: "(7 :: nat) < 24" and h5: "(5 :: nat) < 24" by simp_all
  have v: "map predicted_kw (filter (\<lambda>r. hour r = 7) (tomorrow_rows sample_cache 2)) = map Fin [1, 9, 2]"
    by (simp add: sample_tomorrow sample_prediction_def)
  have e: "filter (\<lambda>r. hour r = 5) (tomorrow_rows sample_cache 2) = []"
    by (simp add: sample_tomorrow sample_prediction_def)
  have r: "py_round (Fin 2) 4 = Fin 2" using py_round_of_int [of 2 4] by simp
  have "te_predicted (forecastTomorrow sample_cache 2 ! 7) = Some (Fin 2)"
    using tomorrow_profile [OF h7, of sample_cache 2 "[1, 9, 2]"] v r
    by (simp add: sample_median)
  moreover have "te_predicted (forecastTomorrow sample_cache 2 ! 5) = Some (Fin 0)"
    using tomorrow_profile [OF h5, of sample_cache 2 "[]"] e by simp
  ultimately show ?thesis using v e sample_tomorrow_fallback by simp
qed

text \<open>
  Claim C10.  For every cache, every day and every hour \<open>h\<close> of \<open>0..23\<close>, the confidence
  of the entry of hour \<open>h\<close> is \<open>88 + (h mod 4)\<close>; it lies between 88 and 91 and is the
  same whatever the cached rows and the day are.
\<close>

theorem tomorrow_confidence:
  assumes "h < 24"
  shows "te_confidence (forecastTomorrow test_rows today_weekday ! h) = 88 + h mod 4 \<and>
         88 \<le> te_confidence (forecastTomorrow test_rows today_weekday ! h) \<and>
         te_confidence (forecastTomorrow test_rows today_weekday ! h) \<le> 91 \<and>
         te_confidence (forecastTomorrow test_rows today_weekday ! h) =
           te_confidence (forecastTomorrow other_rows other_weekday ! h)"
proof -
  have "h mod 4 \<le> 3" by presburger
  then show ?thesis using assms by (simp add: forecastTomorrow_nth CONFIDENCE_BASE_def)
qed

theorem tomorrow_confidence_witness:
  "(7 :: nat) < 24 \<and>
   te_confidence (forecastTomorrow [sample_prediction 7 2 (Fin 3)] 1 ! 7) = 91 \<and>
   te_confidence (forecastTomorrow [] 4 ! 7) = 91"
proof -
  have h: "(7 :: nat) < 24" by simp
  show ?thesis
    using tomorrow_confidence [OF h, of "[sample_prediction 7 2 (Fin 3)]" 1 "[]" 4] by simp
qed

subsection \<open>The histogram of \<open>/peak\<close>\<close>

lemma pd_cut_Fin:
  "pd_cut (Fin x) =
     (if x \<le> 0 then None
      else if x \<le> 2 then Some ''0-2 kW''
      else if x \<le> 4 then Some ''2-4 kW''
      else if x \<le> 6 then Some ''4-6 kW''
      else if x \<le> 8 then Some ''6-8 kW''
      else if x \<le> 10 then Some ''8-10 kW''
      else if x \<le> 12 then Some ''10-12 kW''
      else Some ''12+ kW'')"
  by (simp add: pd_cut_def bins_def labels_def Let_def)

lemma pd_cut_special:
  "pd_cut PInf = Some ''12+ kW''" "pd_cut NInf = None" "pd_cut NaN = None"
  by (simp_all add: pd_cut_def bins_def labels_def Let_def)

lemma pd_cut_interval:
  "(pd_cut v = Some ''0-2 kW'') = (flt (Fin 0) v \<and> fle v (Fin 2))"
  "(pd_cut v = Some ''2-4 kW'') = (flt (Fin 2) v \<and> fle v (Fin 4))"
  "(pd_cut v = Some ''4-6 kW'') = (flt (Fin 4) v \<and> fle v (Fin 6))"
  "(pd_cut v = Some ''6-8 kW'') = (flt (Fin 6) v \<and> fle v (Fin 8))"
  "(pd_cut v = Some ''8-10 kW'') = (flt (Fin 8) v \<and> fle v (Fin 10))"
  "(pd_cut v = Some ''10-12 kW'') = (flt (Fin 10) v \<and> fle v (Fin 12))"
  "(pd_cut v = Some ''12+ kW'') = (flt (Fin 12) v \<and> fle v PInf)"
  by (cases v; simp add: pd_cut_Fin pd_cut_special fle_def; linarith)+

lemma pd_cut_positive:
  "(pd_cut v \<noteq> None) = flt (Fin 0) v"
  by (cases v) (simp_all add: pd_cut_Fin pd_cut_special not_le)

lemma hist_count_eq:
  "length (filter (\<lambda>c. c = Some lbl) (map (\<lambda>r. pd_cut (predicted_kw r)) df)) =
   length (filter (\<lambda>r. pd_cut (predicted_kw r) = Some lbl) df)"
  by (induction df) simp_all

lemma histogram_ranges: "map hist_range (histogram df) = labels"
  by (simp add: histogram_def Let_def comp_def)

lemma histogram_counts:
  "map hist_count (histogram df) =
     map (\<lambda>lbl. length (filter (\<lambda>r. pd_cut (predicted_kw r) = Some lbl) df)) labels"
  by (simp add: histogram_def Let_def comp_def hist_count_eq)

lemma bucket_sum:
  "sum_list (map (\<lambda>lbl. length (filter (\<lambda>r. pd_cut (predicted_kw r) = Some lbl) df)) labels) =
   length (filter (\<lambda>r. flt (Fin 0) (predicted_kw r)) df)"
proof (induction df)
  case Nil
  then show ?case by (simp add: labels_def)
next
  case (Cons r df)
  show ?case
  proof (cases "predicted_kw r")
    case (Fin x)
    then show ?thesis using Cons by (simp add: labels_def pd_cut_Fin)
  next
    case PInf
    then show ?thesis using Cons by (simp add: labels_def pd_cut_special)
  next
    case NInf
    then show ?thesis using Cons by (simp add: labels_def pd_cut_special)
  next
    case NaN
    then show ?thesis using Cons by (simp add: labels_def pd_cut_special)
  qed
qed

lemma upt_7: "[0..<7] = [0, 1, 2, 3, 4, 5, 6]"
  by code_simp

text \<open>
  Claim C1, as the code has it.  The histogram always has the seven buckets, in the fixed
  order of \<open>labels\<close>, empty or not.  Bucket \<open>i\<close> counts the cached rows whose predicted
  value lies in the interval that is open at \<open>bins[i]\<close> and closed at \<open>bins[i+1]\<close>:
  \<open>(0,2], (2,4], (4,6], (6,8], (8,10], (10,12], (12,inf]\<close>.  The counts add up to the
  number of cached rows whose predicted value is greater than 0.
\<close>

theorem histogram_buckets:
  "map hist_range (histogram df) = labels \<and> length (histogram df) = 7 \<and>
   map hist_count (histogram df) =
     map (\<lambda>i. length (filter (\<lambda>r. flt (bins ! i) (predicted_kw r) \<and>
                                   fle (predicted_kw r) (bins ! Suc i)) df)) [0..<7] \<and>
   sum_list (map hist_count (histogram df)) =
     length (filter (\<lambda>r. flt (Fin 0) (predicted_kw r)) df)"
proof -
  have "length (histogram df) = 7" by (simp add: histogram_def labels_def)
  moreover have "map hist_count (histogram df) =
     map (\<lambda>i. length (filter (\<lambda>r. flt (bins ! i) (predicted_kw r) \<and>
                                   fle (predicted_kw r) (bins ! Suc i)) df)) [0..<7]"
    unfolding histogram_counts upt_7 by (simp add: labels_def bins_def pd_cut_interval)
  moreover have "sum_list (map hist_count (histogram df)) =
     length (filter (\<lambda>r. flt (Fin 0) (predicted_kw r)) df)"
    unfolding histogram_counts by (rule bucket_sum)
  ultimately show ?thesis using histogram_ranges [of df] by simp
qed

text \<open>
  Claim C1 as stated puts a predicted value of exactly 2.0 into \<open>2-4 kW\<close> and has the
  counts add up to the number of rows.  A single row predicting 2.0 is counted in
  \<open>0-2 kW\<close>; a single row predicting 0.0 is counted nowhere.
\<close>

theorem histogram_closed_open_counterexample:
  "histogram [sample_prediction 7 3 (Fin 2)] =
     [\<lparr>hist_range = ''0-2 kW'', hist_count = 1\<rparr>, \<lparr>hist_range = ''2-4 kW'', hist_count = 0\<rparr>,
      \<lparr>hist_range = ''4-6 kW'', hist_count = 0\<rparr>, \<lparr>hist_range = ''6-8 kW'', hist_count = 0\<rparr>,
      \<lparr>hist_range = ''8-10 kW'', hist_count = 0\<rparr>, \<lparr>hist_range = ''10-12 kW'', hist_count = 0\<rparr>,
      \<lparr>hist_range = ''12+ kW'', hist_count = 0\<rparr>] \<and>
   sum_list (map hist_count (histogram [sample_prediction 7 3 (Fin 0)])) = 0 \<and>
   length [sample_prediction 7 3 (Fin 0)] = 1"
  by (simp add: histogram_def labels_def sample_prediction_def pd_cut_Fin)

subsection \<open>The top 10 of \<open>/peak\<close>\<close>






















end
